theory Spec2Isabelle
  imports Main "HOL-Library.Word" "HOL-Library.Multiset" "HOL-Library.Char_ord"
    "HOL-Library.List_Lexorder"
begin

unbundle bit_operations_syntax

section \<open>The lds directory lister (lds.go)\<close>

text \<open>
  The program walks a directory tree and prints one line per entry. Everything it gets
  from the operating system and from its libraries (\<open>os\<close>, \<open>path/filepath\<close>,
  \<open>strings\<close>, \<open>lipgloss\<close>) is a field of the record \<open>world\<close>; the program
  never changes the filesystem, so one \<open>world\<close> value stands for the whole run.
  Strings are byte lists, compared bytewise as Go compares them.
\<close>

subsection \<open>Data\<close>

text \<open>
  A Go \<open>error\<close> is modelled by its message. What ends the process at run time is a
  value of its own: an index out of range, or a recursion deeper than the run time allows
  (the stack of a goroutine is bounded).
\<close>

type_synonym error = string

datatype panic = IndexOutOfRange | StackOverflow

text \<open>\<open>fs.FileInfo\<close>: the fields the program reads. \<open>Mode\<close> is the \<open>uint32\<close> bit mask.\<close>

record FileInfo =
  Name :: string
  Size :: int
  Mode :: "32 word"
  ModTime :: int

definition ModeDir :: "32 word" where
  "ModeDir = push_bit 31 1"

definition ModeSymlink :: "32 word" where
  "ModeSymlink = push_bit 27 1"

definition IsDir :: "FileInfo \<Rightarrow> bool" where
  "IsDir info \<longleftrightarrow> Mode info AND ModeDir \<noteq> 0"

record Options =
  showHidden :: bool
  longFormat :: bool
  reverse :: bool
  derefLinks :: bool
  noSymlink :: bool
  maxDepth :: int

datatype style =
  dirStyle | fileStyle | hiddenStyle | linkStyle | permStyle | sizeStyle | modTimeStyle

record world =
  Lstat :: "string \<Rightarrow> error + FileInfo"
  Stat :: "string \<Rightarrow> error + FileInfo"
  Open :: "string \<Rightarrow> error + nat"
  Readdir :: "nat \<Rightarrow> error + FileInfo list"
  EvalSymlinks :: "string \<Rightarrow> error + string"
  Readlink :: "string \<Rightarrow> error + string"
  Join :: "string \<Rightarrow> string \<Rightarrow> string"
  Base :: "string \<Rightarrow> string"
  ToLower :: "string \<Rightarrow> string"
  Render :: "style \<Rightarrow> string \<Rightarrow> string"
  ModeString :: "32 word \<Rightarrow> string"
  FormatTime :: "int \<Rightarrow> string"

text \<open>What a run writes: a line on standard output, a warning or a fatal message of the logger.\<close>

datatype event = Stdout string | Warn string | Fatal string

text \<open>How a call ends: it returns (\<open>nil\<close> or an error) or the process dies in it.\<close>

datatype status = Returned "error option" | Panicked panic

text \<open>The glyphs, as UTF-8 bytes.\<close>

definition branch :: string where
  "branch = [CHR 0xE2, CHR 0x95, CHR 0xB0, CHR 0xE2, CHR 0x94, CHR 0x80, CHR 0x20]"

definition pipe :: string where
  "pipe = [CHR 0xE2, CHR 0x94, CHR 0x82, CHR 0x20, CHR 0x20]"

definition tee :: string where
  "tee = [CHR 0xE2, CHR 0x94, CHR 0x9C, CHR 0xE2, CHR 0x94, CHR 0x80, CHR 0x20]"

definition space :: string where
  "space = [CHR 0x20, CHR 0x20, CHR 0x20]"

subsection \<open>Library helpers written out\<close>

text \<open>\<open>strings.HasPrefix\<close>.\<close>

definition HasPrefix :: "string \<Rightarrow> string \<Rightarrow> bool" where
  "HasPrefix s p \<longleftrightarrow> length p \<le> length s \<and> take (length p) s = p"

text \<open>\<open>fmt.Sprintf("%9d", size)\<close>: decimal digits, right-justified in nine columns.\<close>

fun decimal :: "nat \<Rightarrow> string" where
  "decimal n =
     (if n < 10 then [char_of (48 + n)] else decimal (n div 10) @ [char_of (48 + n mod 10)])"

declare decimal.simps [simp del]

definition Sprintf9d :: "int \<Rightarrow> string" where
  "Sprintf9d n =
     (let s = (if n < 0 then CHR ''-'' # decimal (nat (- n)) else decimal (nat n))
      in replicate (9 - length s) (CHR '' '') @ s)"

text \<open>
  The first rune of a string as \<open>range\<close> decodes it (\<open>utf8.DecodeRuneInString\<close>)
  and \<open>%c\<close> prints it: a well-formed UTF-8 sequence is printed as it is, and a byte
  that starts none is the rune U+FFFD, one byte wide.
\<close>

definition RuneError :: string where
  "RuneError = [CHR 0xEF, CHR 0xBF, CHR 0xBD]"

definition byteIn :: "char \<Rightarrow> nat \<Rightarrow> nat \<Rightarrow> bool" where
  "byteIn c lo hi \<longleftrightarrow> lo \<le> of_char c \<and> of_char c \<le> hi"

definition firstRune :: "string \<Rightarrow> string" where
  "firstRune s =
     (case s of
        [] \<Rightarrow> []
      | c # cs \<Rightarrow>
          if byteIn c 0x00 0x7F then [c]
          else if byteIn c 0xC2 0xDF then
            (case cs of
               c1 # _ \<Rightarrow> if byteIn c1 0x80 0xBF then [c, c1] else RuneError
             | _ \<Rightarrow> RuneError)
          else if byteIn c 0xE0 0xEF then
            (case cs of
               c1 # c2 # _ \<Rightarrow>
                 if byteIn c1 (if byteIn c 0xE0 0xE0 then 0xA0 else 0x80)
                      (if byteIn c 0xED 0xED then 0x9F else 0xBF)
                    \<and> byteIn c2 0x80 0xBF
                 then [c, c1, c2] else RuneError
             | _ \<Rightarrow> RuneError)
          else if byteIn c 0xF0 0xF4 then
            (case cs of
               c1 # c2 # c3 # _ \<Rightarrow>
                 if byteIn c1 (if byteIn c 0xF0 0xF0 then 0x90 else 0x80)
                      (if byteIn c 0xF4 0xF4 then 0x8F else 0xBF)
                    \<and> byteIn c2 0x80 0xBF \<and> byteIn c3 0x80 0xBF
                 then [c, c1, c2, c3] else RuneError
             | _ \<Rightarrow> RuneError)
          else RuneError)"

subsection \<open>quickSort and partition\<close>

text \<open>
  A slice is a list; an index is an \<open>int\<close>, as in the source, and an access outside
  \<open>0 \<le> i < len\<close> is the panic Go raises. Indices stay between \<open>-1\<close> and the length of
  the slice, far from the bounds of the 64-bit \<open>int\<close>. The comparison \<open>less\<close> is a
  closure over the slice that \<open>quickSort\<close> permutes (they share the backing array), so
  it receives the current contents.
\<close>

definition in_range :: "'a list \<Rightarrow> int \<Rightarrow> bool" where
  "in_range xs i \<longleftrightarrow> 0 \<le> i \<and> i < int (length xs)"

text \<open>\<open>entries[i], entries[j] = entries[j], entries[i]\<close>\<close>

definition swap_entries :: "FileInfo list \<Rightarrow> int \<Rightarrow> int \<Rightarrow> panic + FileInfo list" where
  "swap_entries entries i j =
     (if in_range entries i \<and> in_range entries j
      then Inr (entries[nat i := entries ! nat j, nat j := entries ! nat i])
      else Inl IndexOutOfRange)"

text \<open>The \<open>for j := low; j < high; j++\<close> loop of \<open>partition\<close>.\<close>

function partition_loop ::
  "FileInfo list \<Rightarrow> int \<Rightarrow> (FileInfo list \<Rightarrow> int \<Rightarrow> int \<Rightarrow> panic + bool) \<Rightarrow> int \<Rightarrow> int
     \<Rightarrow> panic + (FileInfo list \<times> int)" where
  "partition_loop entries high lessf i j =
     (if j < high then
        (case lessf entries j high of
           Inl e \<Rightarrow> Inl e
         | Inr b \<Rightarrow>
             if b then
               (case swap_entries entries i j of
                  Inl e \<Rightarrow> Inl e
                | Inr entries' \<Rightarrow> partition_loop entries' high lessf (i + 1) (j + 1))
             else partition_loop entries high lessf i (j + 1))
      else Inr (entries, i))"
  by pat_completeness auto
termination
  by (relation "measure (\<lambda>(entries, high, lessf, i, j). nat (high - j))") auto

declare partition_loop.simps [simp del]

definition partition_entries ::
  "FileInfo list \<Rightarrow> int \<Rightarrow> int \<Rightarrow> (FileInfo list \<Rightarrow> int \<Rightarrow> int \<Rightarrow> panic + bool)
     \<Rightarrow> panic + (FileInfo list \<times> int)" where
  "partition_entries entries low high lessf =
     (case partition_loop entries high lessf low low of
        Inl e \<Rightarrow> Inl e
      | Inr (entries', i) \<Rightarrow>
          (case swap_entries entries' i high of
             Inl e \<Rightarrow> Inl e
           | Inr entries'' \<Rightarrow> Inr (entries'', i)))"

lemma partition_loop_range:
  "partition_loop entries high lessf i j = Inr (entries', p) \<Longrightarrow> i \<le> j \<Longrightarrow> j \<le> high
     \<Longrightarrow> i \<le> p \<and> p \<le> high"
proof (induction entries high lessf i j rule: partition_loop.induct)
  case (1 entries high lessf i j)
  note unf = partition_loop.simps[of entries high lessf i j]
  show ?case
  proof (cases "j < high")
    case False
    with "1.prems" unf show ?thesis by simp
  next
    case True
    note jh = True
    show ?thesis
    proof (cases "lessf entries j high")
      case (Inl e)
      with "1.prems" jh unf show ?thesis by simp
    next
      case (Inr b)
      show ?thesis
      proof (cases b)
        case False
        with "1.prems" jh Inr unf
        have "partition_loop entries high lessf i (j + 1) = Inr (entries', p)"
          by simp
        from "1.IH"(2)[OF jh Inr False this] "1.prems" jh show ?thesis by simp
      next
        case True
        show ?thesis
        proof (cases "swap_entries entries i j")
          case (Inl e)
          with "1.prems" jh Inr True unf show ?thesis by simp
        next
          case sw: (Inr es2)
          with "1.prems" jh Inr True unf
          have "partition_loop es2 high lessf (i + 1) (j + 1) = Inr (entries', p)" by simp
          from "1.IH"(1)[OF jh Inr True sw this] "1.prems" jh show ?thesis by simp
        qed
      qed
    qed
  qed
qed

lemma partition_entries_range:
  assumes "partition_entries entries low high lessf = Inr (entries', p)" "low \<le> high"
  shows "low \<le> p \<and> p \<le> high"
  using assms partition_loop_range[of entries high lessf low low]
  by (auto simp: partition_entries_def split: sum.splits prod.splits)

function quickSort ::
  "FileInfo list \<Rightarrow> int \<Rightarrow> int \<Rightarrow> (FileInfo list \<Rightarrow> int \<Rightarrow> int \<Rightarrow> panic + bool)
     \<Rightarrow> panic + FileInfo list" where
  "quickSort entries low high lessf =
     (if low < high then
        (case partition_entries entries low high lessf of
           Inl e \<Rightarrow> Inl e
         | Inr (entries', p) \<Rightarrow>
             (case quickSort entries' low (p - 1) lessf of
                Inl e \<Rightarrow> Inl e
              | Inr entries'' \<Rightarrow> quickSort entries'' (p + 1) high lessf))
      else Inr entries)"
  by pat_completeness auto
termination
proof (relation "measure (\<lambda>(entries, low, high, lessf). nat (high - low))", goal_cases)
  case 1
  show ?case by simp
next
  case (2 entries low high lessf x2 entries' p)
  then have "partition_entries entries low high lessf = Inr (entries', p)" "low < high"
    by simp_all
  with partition_entries_range[of entries low high lessf entries' p]
  have "low \<le> p \<and> p \<le> high" by simp
  with \<open>low < high\<close> show ?case by simp
next
  case (3 entries low high lessf x2 entries' p x2a)
  then have "partition_entries entries low high lessf = Inr (entries', p)" "low < high"
    by simp_all
  with partition_entries_range[of entries low high lessf entries' p]
  have "low \<le> p \<and> p \<le> high" by simp
  with \<open>low < high\<close> show ?case by simp
qed

declare quickSort.simps [simp del]

subsection \<open>readDir\<close>

text \<open>The closure \<open>less\<close> of \<open>readDir\<close>, reading \<open>filtered[i]\<close> and \<open>filtered[j]\<close>.\<close>

definition less_closure :: "world \<Rightarrow> bool \<Rightarrow> FileInfo list \<Rightarrow> int \<Rightarrow> int \<Rightarrow> panic + bool" where
  "less_closure w rev_flag filtered i j =
     (if in_range filtered i \<and> in_range filtered j then
        Inr (if rev_flag
             then ToLower w (Name (filtered ! nat i)) > ToLower w (Name (filtered ! nat j))
             else ToLower w (Name (filtered ! nat i)) < ToLower w (Name (filtered ! nat j)))
      else Inl IndexOutOfRange)"

text \<open>The filter loop keeps \<open>e\<close> unless \<open>!showHidden && HasPrefix(e.Name(), ".")\<close>.\<close>

definition keep_entry :: "bool \<Rightarrow> FileInfo \<Rightarrow> bool" where
  "keep_entry show_hidden e \<longleftrightarrow> \<not> (\<not> show_hidden \<and> HasPrefix (Name e) ''.'')"

text \<open>The call \<open>quickSort(filtered, 0, len(filtered)-1, less)\<close> with that closure.\<close>

definition sortEntries :: "world \<Rightarrow> bool \<Rightarrow> FileInfo list \<Rightarrow> panic + FileInfo list" where
  "sortEntries w rev_flag filtered =
     quickSort filtered 0 (int (length filtered) - 1) (less_closure w rev_flag)"

definition readDir :: "world \<Rightarrow> string \<Rightarrow> bool \<Rightarrow> bool \<Rightarrow> panic + (error + FileInfo list)" where
  "readDir w path show_hidden rev_flag =
     (case Open w path of
        Inl err \<Rightarrow> Inr (Inl err)
      | Inr f \<Rightarrow>
          (case Readdir w f of
             Inl err \<Rightarrow> Inr (Inl err)
           | Inr entries \<Rightarrow>
               (case sortEntries w rev_flag (filter (keep_entry show_hidden) entries) of
                  Inl p \<Rightarrow> Inl p
                | Inr sorted_entries \<Rightarrow> Inr (Inr sorted_entries))))"

subsection \<open>printNode\<close>

text \<open>The display name: the link target is appended under the guard of the source.\<close>

definition displayName :: "Options \<Rightarrow> string \<Rightarrow> string \<Rightarrow> bool \<Rightarrow> string" where
  "displayName opts name linkTarget isSymlink =
     (if isSymlink \<and> linkTarget \<noteq> [] \<and> \<not> noSymlink opts \<and> \<not> derefLinks opts
      then name @ '' -> '' @ linkTarget else name)"

text \<open>The \<open>switch\<close> choosing the style: directory, hidden, symlink, file, in that order.\<close>

definition nameStyle :: "bool \<Rightarrow> bool \<Rightarrow> bool \<Rightarrow> style" where
  "nameStyle isDir hidden isSymlink =
     (if isDir then dirStyle else if hidden then hiddenStyle
      else if isSymlink then linkStyle else fileStyle)"

definition printNode ::
  "world \<Rightarrow> string \<Rightarrow> FileInfo \<Rightarrow> Options \<Rightarrow> string \<Rightarrow> bool \<Rightarrow> bool \<Rightarrow> string \<Rightarrow> bool
     \<Rightarrow> event list" where
  "printNode w name info opts prefix isRoot printName linkTarget isSymlink =
     (let isDir = IsDir info;
          hidden = HasPrefix name ''.'';
          styledName = Render w (nameStyle isDir hidden isSymlink)
                         (displayName opts name linkTarget isSymlink)
      in if isRoot then [Stdout styledName]
         else if longFormat opts then
           (let permCol = Render w permStyle (ModeString w (Mode info));
                sizeCol = Render w sizeStyle (Sprintf9d (Size info));
                modTimeCol = Render w modTimeStyle (FormatTime w (ModTime info))
            in [Stdout (prefix @ styledName @ '' '' @ permCol @ '' '' @ sizeCol @ '' ''
                          @ modTimeCol)])
         else [Stdout (prefix @ styledName)])"

subsection \<open>printTree\<close>

text \<open>
  The symlink handling at the head of the loop body: the entry, its path, whether it still
  counts as a symlink, and the link target to display.
\<close>

definition resolveSymlink ::
  "world \<Rightarrow> Options \<Rightarrow> string \<Rightarrow> FileInfo \<Rightarrow> FileInfo \<times> string \<times> bool \<times> string" where
  "resolveSymlink w opts path entry =
     (let entryPath = Join w path (Name entry);
          entryIsSymlink = (Mode entry AND ModeSymlink \<noteq> 0)
      in if entryIsSymlink \<and> derefLinks opts then
           (case EvalSymlinks w entryPath of
              Inl err \<Rightarrow> (entry, entryPath, entryIsSymlink, [])
            | Inr targetPath \<Rightarrow>
                (case Stat w targetPath of
                   Inl err \<Rightarrow> (entry, entryPath, entryIsSymlink, [])
                 | Inr targetInfo \<Rightarrow> (targetInfo, targetPath, False, [])))
         else if entryIsSymlink \<and> \<not> noSymlink opts then
           (case Readlink w entryPath of
              Inl err \<Rightarrow> (entry, entryPath, entryIsSymlink, [])
            | Inr target \<Rightarrow> (entry, entryPath, entryIsSymlink, target))
         else (entry, entryPath, entryIsSymlink, []))"

text \<open>The warning of the loop when the recursive call returns an error.\<close>

definition dirWarning :: "string \<Rightarrow> error option \<Rightarrow> event list" where
  "dirWarning entryPath r =
     (case r of None \<Rightarrow> []
      | Some err \<Rightarrow> [Warn (''Error reading directory '' @ entryPath @ '': '' @ err)])"

text \<open>
  The body of the loop \<open>for i, entry := range entries\<close> for one entry;
  \<open>recurse\<close> is the recursive call \<open>printTree(entryPath, opts, newPrefix, false)\<close>.
  The body is written for any such call, also one that gives no result (\<open>None\<close>);
  \<open>printTree\<close> below always gives one. When the process dies in the recursive call,
  what was printed stays printed and nothing follows.
\<close>

definition printEntry ::
  "(string \<Rightarrow> string \<Rightarrow> (event list \<times> status) option) \<Rightarrow> world \<Rightarrow> Options \<Rightarrow> string \<Rightarrow> string
     \<Rightarrow> bool \<Rightarrow> FileInfo \<Rightarrow> (event list \<times> status) option" where
  "printEntry recurse w opts path prefix isLast e =
     (case resolveSymlink w opts path e of (entry, entryPath, entryIsSymlink, linkTarget) \<Rightarrow>
      let linePrefix = prefix @ (if isLast then branch else tee);
          line = printNode w (Name entry) entry opts linePrefix False True linkTarget
                   entryIsSymlink
      in if IsDir entry then
           (case recurse entryPath (prefix @ (if isLast then space else pipe)) of
              None \<Rightarrow> None
            | Some (sub, Panicked p) \<Rightarrow> Some (line @ sub, Panicked p)
            | Some (sub, Returned r) \<Rightarrow> Some (line @ sub @ dirWarning entryPath r, Returned None))
         else Some (line, Returned None))"

text \<open>The loop itself, from index \<open>i\<close> on; \<open>n\<close> is \<open>len(entries)\<close>.\<close>

fun printEntries ::
  "(string \<Rightarrow> string \<Rightarrow> (event list \<times> status) option) \<Rightarrow> world \<Rightarrow> Options \<Rightarrow> string \<Rightarrow> string
     \<Rightarrow> nat \<Rightarrow> nat \<Rightarrow> FileInfo list \<Rightarrow> (event list \<times> status) option" where
  "printEntries recurse w opts path prefix n i [] = Some ([], Returned None)"
| "printEntries recurse w opts path prefix n i (e # rest) =
     (case printEntry recurse w opts path prefix (int i = int n - 1) e of
        None \<Rightarrow> None
      | Some (out, Panicked p) \<Rightarrow> Some (out, Panicked p)
      | Some (out, Returned r) \<Rightarrow>
          (case printEntries recurse w opts path prefix n (i + 1) rest of
             None \<Rightarrow> None
           | Some (out', st) \<Rightarrow> Some (out @ out', st)))"

text \<open>The name printed for the root.\<close>

definition rootName :: "world \<Rightarrow> string \<Rightarrow> string" where
  "rootName w path = (let name = Base w path in if name = ''.'' then path else name)"

text \<open>
  \<open>printTree\<close>. The first argument is the depth of recursion that the run time
  allows: the source has no bound of its own, and a directory cycle reached through
  dereferenced links makes it recurse until the stack is exhausted and the process dies,
  with the lines printed so far. A call beyond the depth allowed is that end. The theorems
  hold for every depth, \<open>printTree\<close> gives a result at every depth, and a listing that
  returns is the same at every greater depth.
\<close>

fun printTree ::
  "nat \<Rightarrow> world \<Rightarrow> string \<Rightarrow> Options \<Rightarrow> string \<Rightarrow> bool \<Rightarrow> (event list \<times> status) option" where
  "printTree 0 w path opts prefix isRoot = Some ([], Panicked StackOverflow)"
| "printTree (Suc fuel) w path opts prefix isRoot =
     (case Lstat w path of
        Inl err \<Rightarrow> Some ([], Returned (Some err))
      | Inr info \<Rightarrow>
          (case readDir w path (showHidden opts) (reverse opts) of
             Inl p \<Rightarrow> Some ([], Panicked p)
           | Inr (Inl err) \<Rightarrow> Some ([], Returned (Some err))
           | Inr (Inr entries) \<Rightarrow>
               (let rootLine = (if isRoot
                                then printNode w (rootName w path) info opts [] True True [] False
                                else [])
                in case printEntries (\<lambda>entryPath newPrefix.
                                        printTree fuel w entryPath opts newPrefix False)
                          w opts path prefix (length entries) 0 entries of
                     None \<Rightarrow> None
                   | Some (out, st) \<Rightarrow> Some (rootLine @ out, st))))"

subsection \<open>main\<close>

text \<open>
  The loop \<open>for _, ch := range arg[1:]\<close> over the runes of a flag argument. The four
  options are ASCII, so the loop goes on after a byte that is one of them, and any other
  rune ends it: \<open>Inl\<close> carries that rune as \<open>%c\<close> prints it, which is
  \<open>firstRune\<close> of the bytes that remain.
\<close>

fun parseFlags :: "string \<Rightarrow> Options \<Rightarrow> string + Options" where
  "parseFlags [] opts = Inr opts"
| "parseFlags (ch # rest) opts =
     (if ch = CHR ''a'' then parseFlags rest (opts\<lparr>showHidden := True\<rparr>)
      else if ch = CHR ''l'' then parseFlags rest (opts\<lparr>longFormat := True\<rparr>)
      else if ch = CHR ''r'' then parseFlags rest (opts\<lparr>reverse := True\<rparr>)
      else if ch = CHR ''L'' then parseFlags rest (opts\<lparr>derefLinks := True\<rparr>)
      else Inl (firstRune (ch # rest)))"

datatype parsed = ShowHelp | UnknownOption string | Parsed Options "string list"

fun parseArgs :: "string list \<Rightarrow> Options \<Rightarrow> string list \<Rightarrow> parsed" where
  "parseArgs [] opts paths = Parsed opts paths"
| "parseArgs (arg # args) opts paths =
     (if arg = ''--help'' \<or> arg = ''-h'' then ShowHelp
      else if arg = ''--no-symlink'' then parseArgs args (opts\<lparr>noSymlink := True\<rparr>) paths
      else if HasPrefix arg ''-'' \<and> length arg > 1 then
        (case parseFlags (tl arg) opts of
           Inl ch \<Rightarrow> UnknownOption ch
         | Inr opts' \<Rightarrow> parseArgs args opts' paths)
      else parseArgs args opts (paths @ [arg]))"

definition usage :: "event list" where
  "usage =
     [Stdout ''Usage: lds [options] [path ...]'',
      Stdout ''Options:'',
      Stdout ''  -a            Show hidden files.'',
      Stdout (''  -l '' @ [CHR 0x09, CHR 0x09, CHR 0x09] @ '' Show long listing.''),
      Stdout ''  -r            Reverse order.'',
      Stdout ''  -L            Follow symlinks.'',
      Stdout ''  --no-symlink  Do not follow symlinks.'']"

text \<open>The header printed before a root when there are several.\<close>

definition rootHeader :: "nat \<Rightarrow> nat \<Rightarrow> string \<Rightarrow> event list" where
  "rootHeader n i root =
     (if n > 1 then (if i > 0 then [Stdout []] else []) @ [Stdout (root @ '':'')] else [])"

definition rootWarning :: "string \<Rightarrow> error option \<Rightarrow> event list" where
  "rootWarning root r =
     (case r of None \<Rightarrow> []
      | Some err \<Rightarrow> [Warn (''Error listing '' @ root @ '': '' @ err)])"

text \<open>The loop \<open>for i, root := range paths\<close>, from index \<open>i\<close> on; \<open>n\<close> is \<open>len(paths)\<close>.\<close>

fun listRoots ::
  "nat \<Rightarrow> world \<Rightarrow> Options \<Rightarrow> nat \<Rightarrow> nat \<Rightarrow> string list \<Rightarrow> (event list \<times> status) option" where
  "listRoots fuel w opts n i [] = Some ([], Returned None)"
| "listRoots fuel w opts n i (root # rest) =
     (case printTree fuel w root opts [] True of
        None \<Rightarrow> None
      | Some (out, Panicked p) \<Rightarrow> Some (rootHeader n i root @ out, Panicked p)
      | Some (out, Returned r) \<Rightarrow>
          (case listRoots fuel w opts n (i + 1) rest of
             None \<Rightarrow> None
           | Some (out', st) \<Rightarrow>
               Some (rootHeader n i root @ out @ rootWarning root r @ out', st)))"

text \<open>How the process ends.\<close>

datatype exit = ExitOk | ExitFatal | ExitPanic panic

definition noOptions :: Options where
  "noOptions = \<lparr>showHidden = False, longFormat = False, reverse = False, derefLinks = False,
                noSymlink = False, maxDepth = 0\<rparr>"

definition main :: "nat \<Rightarrow> world \<Rightarrow> string list \<Rightarrow> (event list \<times> exit) option" where
  "main fuel w args =
     (case parseArgs args noOptions [] of
        ShowHelp \<Rightarrow> Some (usage, ExitOk)
      | UnknownOption ch \<Rightarrow> Some ([Fatal (''Unknown option: -'' @ ch)], ExitFatal)
      | Parsed opts paths0 \<Rightarrow>
          (let paths = (if length paths0 = 0 then paths0 @ [''.''] else paths0) in
           case listRoots fuel w opts (length paths) 0 paths of
             None \<Rightarrow> None
           | Some (out, Panicked p) \<Rightarrow> Some (out, ExitPanic p)
           | Some (out, Returned r) \<Rightarrow> Some (out, ExitOk)))"

subsection \<open>Vocabulary of the properties\<close>

text \<open>The case-folded name that the sort compares.\<close>

definition foldedName :: "world \<Rightarrow> FileInfo \<Rightarrow> string" where
  "foldedName w e = ToLower w (Name e)"

text \<open>The comparison of the closure, on two entries.\<close>

definition key_lt :: "world \<Rightarrow> bool \<Rightarrow> FileInfo \<Rightarrow> FileInfo \<Rightarrow> bool" where
  "key_lt w rev_flag a b =
     (if rev_flag then foldedName w a > foldedName w b else foldedName w a < foldedName w b)"

text \<open>A comparison closure that reads the two elements and compares them by \<open>lt\<close>.\<close>

definition less_ok ::
  "(FileInfo list \<Rightarrow> int \<Rightarrow> int \<Rightarrow> panic + bool) \<Rightarrow> (FileInfo \<Rightarrow> FileInfo \<Rightarrow> bool) \<Rightarrow> bool" where
  "less_ok lessf lt \<longleftrightarrow>
     (\<forall>es i j. in_range es i \<and> in_range es j \<longrightarrow> lessf es i j = Inr (lt (es ! nat i) (es ! nat j)))"

text \<open>The columns that long format adds to a line, and the text of a line after its prefix.\<close>

definition longColumns :: "world \<Rightarrow> Options \<Rightarrow> FileInfo \<Rightarrow> string" where
  "longColumns w opts info =
     (if longFormat opts
      then '' '' @ Render w permStyle (ModeString w (Mode info))
           @ '' '' @ Render w sizeStyle (Sprintf9d (Size info))
           @ '' '' @ Render w modTimeStyle (FormatTime w (ModTime info))
      else [])"

definition lineText :: "world \<Rightarrow> string \<Rightarrow> FileInfo \<Rightarrow> Options \<Rightarrow> string \<Rightarrow> bool \<Rightarrow> string" where
  "lineText w name info opts linkTarget isSymlink =
     Render w (nameStyle (IsDir info) (HasPrefix name ''.'') isSymlink)
       (displayName opts name linkTarget isSymlink)
     @ longColumns w opts info"

text \<open>The glyph of a child.\<close>

definition glyph :: "bool \<Rightarrow> string" where
  "glyph isLast = (if isLast then branch else tee)"


subsection \<open>An example filesystem\<close>

text \<open>
  A directory \<open>r\<close> with three files (one of them hidden), a link to its subdirectory
  \<open>sub\<close>, that subdirectory and a directory \<open>locked\<close> that cannot be opened;
  and a directory \<open>d\<close> whose only entry is a link back to \<open>d\<close>.
  Lower-casing is the ASCII one, styles render a string as it is, and \<open>Base\<close> is the
  part after the last separator, right for the paths used here.
\<close>

definition asciiLower :: "char \<Rightarrow> char" where
  "asciiLower c =
     (if CHR ''A'' \<le> c \<and> c \<le> CHR ''Z'' then char_of (of_char c + (32::nat)) else c)"

definition baseName :: "string \<Rightarrow> string" where
  "baseName p = rev (takeWhile (\<lambda>c. c \<noteq> CHR ''/'') (rev p))"

definition mkInfo :: "string \<Rightarrow> 32 word \<Rightarrow> FileInfo" where
  "mkInfo name mode = \<lparr>Name = name, Size = 0, Mode = mode, ModTime = 0\<rparr>"

definition regularMode :: "32 word" where
  "regularMode = 0x1A4"

definition dirMode :: "32 word" where
  "dirMode = ModeDir OR 0x1ED"

definition linkMode :: "32 word" where
  "linkMode = ModeSymlink OR 0x1FF"

definition exampleRoot :: "FileInfo list" where
  "exampleRoot =
     [mkInfo ''b.txt'' regularMode, mkInfo ''.hidden'' regularMode, mkInfo ''A'' regularMode,
      mkInfo ''link'' linkMode, mkInfo ''sub'' dirMode, mkInfo ''locked'' dirMode]"

definition exampleWorld :: world where
  "exampleWorld =
     \<lparr>Lstat = (\<lambda>p. if p = ''r'' then Inr (mkInfo ''r'' dirMode)
                  else if p = ''r/sub'' then Inr (mkInfo ''sub'' dirMode)
                  else if p = ''r/locked'' then Inr (mkInfo ''locked'' dirMode)
                  else if p = ''d'' then Inr (mkInfo ''d'' dirMode)
                  else Inl ''no such file or directory''),
      Stat = (\<lambda>p. if p = ''r'' then Inr (mkInfo ''r'' dirMode)
                 else if p = ''r/sub'' then Inr (mkInfo ''sub'' dirMode)
                 else if p = ''r/locked'' then Inr (mkInfo ''locked'' dirMode)
                 else if p = ''d'' then Inr (mkInfo ''d'' dirMode)
                 else Inl ''no such file or directory''),
      Open = (\<lambda>p. if p = ''r'' then Inr 3 else if p = ''r/sub'' then Inr 4
                 else if p = ''d'' then Inr 5
                 else if p = ''r/locked'' then Inl ''permission denied''
                 else Inl ''no such file or directory''),
      Readdir = (\<lambda>f. if f = 3 then Inr exampleRoot
                    else if f = 4 then Inr [mkInfo ''c'' regularMode]
                    else if f = 5 then Inr [mkInfo ''self'' linkMode]
                    else Inl ''bad file descriptor''),
      EvalSymlinks = (\<lambda>p. if p = ''r/link'' then Inr ''r/sub''
                         else if p = ''d/self'' then Inr ''d''
                         else Inl ''no such file or directory''),
      Readlink = (\<lambda>p. if p = ''r/link'' then Inr ''sub''
                     else if p = ''d/self'' then Inr ''.''
                     else Inl ''invalid argument''),
      Join = (\<lambda>dir name. dir @ ''/'' @ name),
      Base = baseName,
      ToLower = map asciiLower,
      Render = (\<lambda>st s. s),
      ModeString = (\<lambda>m. ''----------''),
      FormatTime = (\<lambda>t. ''1970-01-01 00:00'')\<rparr>"

section \<open>Correctness of the sort\<close>

lemma swap_nat:
  "n < length es \<Longrightarrow> m < length es
     \<Longrightarrow> swap_entries es (int n) (int m) = Inr (es[n := es ! m, m := es ! n])"
  by (simp add: swap_entries_def in_range_def)

lemma swap_same:
  "in_range es i \<Longrightarrow> swap_entries es i i = Inr es"
  by (simp add: swap_entries_def)

lemma swap_segments:
  "swap_entries (pre @ A @ b # B @ c # rest) (int (length pre + length A))
      (int (length pre + length A + Suc (length B)))
   = Inr (pre @ A @ c # B @ b # rest)"
proof -
  let ?es = "pre @ A @ b # B @ c # rest"
  let ?n = "length pre + length A"
  let ?m = "length pre + length A + Suc (length B)"
  have n: "?n < length ?es" and m: "?m < length ?es" by simp_all
  have en: "?es ! ?n = b"
    by (simp add: nth_append)
  have es': "?es = (pre @ A @ b # B) @ c # rest" by simp
  have m': "?m = length (pre @ A @ b # B)" by simp
  have em: "?es ! ?m = c"
    unfolding es' m' by (rule nth_append_length)
  have u1: "?es[?n := c] = pre @ A @ c # B @ c # rest"
    by (simp add: list_update_append)
  have u2: "(pre @ A @ c # B @ c # rest)[?m := b] = pre @ A @ c # B @ b # rest"
  proof -
    have e: "pre @ A @ c # B @ c # rest = (pre @ A @ c # B) @ c # rest" by simp
    have m2: "?m = length (pre @ A @ c # B)" by simp
    show ?thesis unfolding e m2 list_update_length by simp
  qed
  show ?thesis
    unfolding swap_nat[OF n m] en em u1 u2 ..
qed

lemma partition_loop_segments:
  assumes ok: "less_ok lessf lt"
  shows "\<lbrakk>\<forall>a \<in> set A. lt a pv; \<forall>b \<in> set B. \<not> lt b pv\<rbrakk> \<Longrightarrow>
    \<exists>A' B'. partition_loop (pre @ A @ B @ C @ pv # post)
               (int (length pre + length A + length B + length C)) lessf
               (int (length pre + length A)) (int (length pre + length A + length B))
             = Inr (pre @ A' @ B' @ pv # post, int (length pre + length A'))
           \<and> mset (A' @ B') = mset (A @ B @ C)
           \<and> (\<forall>a \<in> set A'. lt a pv) \<and> (\<forall>b \<in> set B'. \<not> lt b pv)"
proof (induction C arbitrary: A B)
  case Nil
  show ?case
    apply (rule exI[of _ A], rule exI[of _ B])
    using Nil partition_loop.simps[of "pre @ A @ B @ [] @ pv # post"
        "int (length pre + length A + length B + length ([]::FileInfo list))" lessf
        "int (length pre + length A)" "int (length pre + length A + length B)"]
    by simp
next
  case (Cons c C)
  let ?es = "pre @ A @ B @ (c # C) @ pv # post"
  let ?high = "int (length pre + length A + length B + length (c # C))"
  let ?i = "int (length pre + length A)"
  let ?j = "int (length pre + length A + length B)"
  have jh: "?j < ?high" by simp
  have rj: "in_range ?es ?j" and rh: "in_range ?es ?high" and ri: "in_range ?es ?i"
    by (simp_all add: in_range_def)
  have nj: "?es ! nat ?j = c"
    by (simp add: nth_append)
  have nh: "?es ! nat ?high = pv"
    by (simp add: nth_append)
  from ok rj rh nj nh have lessv: "lessf ?es ?j ?high = Inr (lt c pv)"
    unfolding less_ok_def by metis
  note unf = partition_loop.simps[of ?es ?high lessf ?i ?j]
  show ?case
  proof (cases "lt c pv")
    case False
    have es_eq: "?es = pre @ A @ (B @ [c]) @ C @ pv # post" by simp
    from Cons.IH[of A "B @ [c]"] Cons.prems False
    obtain A' B' where
      r: "partition_loop (pre @ A @ (B @ [c]) @ C @ pv # post)
               (int (length pre + length A + length (B @ [c]) + length C)) lessf
               (int (length pre + length A)) (int (length pre + length A + length (B @ [c])))
             = Inr (pre @ A' @ B' @ pv # post, int (length pre + length A'))"
      and m: "mset (A' @ B') = mset (A @ (B @ [c]) @ C)"
      and p: "(\<forall>a \<in> set A'. lt a pv)" "(\<forall>b \<in> set B'. \<not> lt b pv)"
      by auto
    have hi: "int (length pre + length A + length (B @ [c]) + length C) = ?high" by simp
    have j1: "int (length pre + length A + length (B @ [c])) = ?j + 1" by simp
    from r have r': "partition_loop ?es ?high lessf ?i (?j + 1)
        = Inr (pre @ A' @ B' @ pv # post, int (length pre + length A'))"
      unfolding hi j1 es_eq[symmetric] .
    have g: "partition_loop ?es ?high lessf ?i ?j
        = Inr (pre @ A' @ B' @ pv # post, int (length pre + length A'))"
      using unf jh lessv False r' by simp
    have m': "mset (A' @ B') = mset (A @ B @ c # C)" using m by simp
    from g m' p show ?thesis by blast
  next
    case True
    show ?thesis
    proof (cases B)
      case Nil
      have sw: "swap_entries ?es ?i ?j = Inr ?es"
        using swap_same[OF ri] Nil by simp
      have es_eq: "?es = pre @ (A @ [c]) @ [] @ C @ pv # post" using Nil by simp
      from Cons.IH[of "A @ [c]" "[]"] Cons.prems True
      obtain A' B' where
        r: "partition_loop (pre @ (A @ [c]) @ [] @ C @ pv # post)
               (int (length pre + length (A @ [c]) + length ([]::FileInfo list) + length C)) lessf
               (int (length pre + length (A @ [c])))
               (int (length pre + length (A @ [c]) + length ([]::FileInfo list)))
             = Inr (pre @ A' @ B' @ pv # post, int (length pre + length A'))"
        and m: "mset (A' @ B') = mset ((A @ [c]) @ [] @ C)"
        and p: "(\<forall>a \<in> set A'. lt a pv)" "(\<forall>b \<in> set B'. \<not> lt b pv)"
        by auto
      have hi: "int (length pre + length (A @ [c]) + length ([]::FileInfo list) + length C) = ?high"
        using Nil by simp
      have i1: "int (length pre + length (A @ [c])) = ?i + 1" by simp
      have j1: "int (length pre + length (A @ [c]) + length ([]::FileInfo list)) = ?j + 1"
        using Nil by simp
      from r have r': "partition_loop ?es ?high lessf (?i + 1) (?j + 1)
          = Inr (pre @ A' @ B' @ pv # post, int (length pre + length A'))"
        unfolding hi i1 j1 es_eq[symmetric] .
      have g: "partition_loop ?es ?high lessf ?i ?j
          = Inr (pre @ A' @ B' @ pv # post, int (length pre + length A'))"
        using unf jh lessv True sw r' by simp
      have m': "mset (A' @ B') = mset (A @ B @ c # C)" using m Nil by simp
      from g m' p show ?thesis by blast
    next
      case (Cons b B2)
      let ?es2 = "pre @ A @ c # B2 @ b # (C @ pv # post)"
      have "swap_entries (pre @ A @ b # B2 @ c # (C @ pv # post)) (int (length pre + length A))
              (int (length pre + length A + Suc (length B2))) = Inr ?es2"
        by (rule swap_segments)
      then have sw: "swap_entries ?es ?i ?j = Inr ?es2"
        using Cons by (simp add: ac_simps)
      have es_eq: "?es2 = pre @ (A @ [c]) @ (B2 @ [b]) @ C @ pv # post" by simp
      from Cons.IH[of "A @ [c]" "B2 @ [b]"] Cons.prems True Cons
      obtain A' B' where
        r: "partition_loop (pre @ (A @ [c]) @ (B2 @ [b]) @ C @ pv # post)
               (int (length pre + length (A @ [c]) + length (B2 @ [b]) + length C)) lessf
               (int (length pre + length (A @ [c])))
               (int (length pre + length (A @ [c]) + length (B2 @ [b])))
             = Inr (pre @ A' @ B' @ pv # post, int (length pre + length A'))"
        and m: "mset (A' @ B') = mset ((A @ [c]) @ (B2 @ [b]) @ C)"
        and p: "(\<forall>a \<in> set A'. lt a pv)" "(\<forall>b \<in> set B'. \<not> lt b pv)"
        by auto
      have hi: "int (length pre + length (A @ [c]) + length (B2 @ [b]) + length C) = ?high"
        using Cons by simp
      have i1: "int (length pre + length (A @ [c])) = ?i + 1" by simp
      have j1: "int (length pre + length (A @ [c]) + length (B2 @ [b])) = ?j + 1"
        using Cons by simp
      from r have r': "partition_loop ?es2 ?high lessf (?i + 1) (?j + 1)
          = Inr (pre @ A' @ B' @ pv # post, int (length pre + length A'))"
        unfolding hi i1 j1 es_eq[symmetric] .
      have g: "partition_loop ?es ?high lessf ?i ?j
          = Inr (pre @ A' @ B' @ pv # post, int (length pre + length A'))"
        using unf jh lessv True sw r' by simp
      have m': "mset (A' @ B') = mset (A @ B @ c # C)" using m Cons by simp
      from g m' p show ?thesis by blast
    qed
  qed
qed

lemma partition_entries_segments:
  assumes ok: "less_ok lessf lt"
  shows "\<exists>L R. partition_entries (pre @ mid @ pv # post) (int (length pre))
                 (int (length pre + length mid)) lessf
               = Inr (pre @ L @ pv # R @ post, int (length pre + length L))
             \<and> mset (L @ R) = mset mid
             \<and> (\<forall>a \<in> set L. lt a pv) \<and> (\<forall>b \<in> set R. \<not> lt b pv)"
proof -
  from partition_loop_segments[OF ok, of "[]" pv "[]" pre mid post]
  obtain A B where
    r: "partition_loop (pre @ [] @ [] @ mid @ pv # post)
          (int (length pre + length ([]::FileInfo list) + length ([]::FileInfo list) + length mid))
          lessf (int (length pre + length ([]::FileInfo list)))
          (int (length pre + length ([]::FileInfo list) + length ([]::FileInfo list)))
        = Inr (pre @ A @ B @ pv # post, int (length pre + length A))"
    and m: "mset (A @ B) = mset ([] @ [] @ mid)"
    and p: "\<forall>a \<in> set A. lt a pv" "\<forall>b \<in> set B. \<not> lt b pv"
    by auto
  from r have r': "partition_loop (pre @ mid @ pv # post) (int (length pre + length mid)) lessf
      (int (length pre)) (int (length pre)) = Inr (pre @ A @ B @ pv # post, int (length pre + length A))"
    by simp
  have len: "length mid = length A + length B"
    using m by (metis append_Nil length_append mset_eq_length)
  show ?thesis
  proof (cases B)
    case Nil
    have "in_range (pre @ A @ B @ pv # post) (int (length pre + length A))"
      by (simp add: in_range_def)
    from swap_same[OF this] Nil len
    have sw: "swap_entries (pre @ A @ B @ pv # post) (int (length pre + length A))
        (int (length pre + length mid)) = Inr (pre @ A @ pv # [] @ post)"
      by simp
    have g: "partition_entries (pre @ mid @ pv # post) (int (length pre))
                 (int (length pre + length mid)) lessf
               = Inr (pre @ A @ pv # [] @ post, int (length pre + length A))"
      unfolding partition_entries_def r' using sw by simp
    have m': "mset (A @ []) = mset mid" using m Nil by simp
    have p': "\<forall>b \<in> set ([]::FileInfo list). \<not> lt b pv" by simp
    from g m' p(1) p' show ?thesis by blast
  next
    case (Cons b B2)
    have "swap_entries (pre @ A @ b # B2 @ pv # post) (int (length pre + length A))
        (int (length pre + length A + Suc (length B2))) = Inr (pre @ A @ pv # B2 @ b # post)"
      by (rule swap_segments)
    then have sw: "swap_entries (pre @ A @ B @ pv # post) (int (length pre + length A))
        (int (length pre + length mid)) = Inr (pre @ A @ pv # (B2 @ [b]) @ post)"
      using Cons len by (simp add: ac_simps)
    have g: "partition_entries (pre @ mid @ pv # post) (int (length pre))
                 (int (length pre + length mid)) lessf
               = Inr (pre @ A @ pv # (B2 @ [b]) @ post, int (length pre + length A))"
      unfolding partition_entries_def r' using sw by simp
    have m': "mset (A @ (B2 @ [b])) = mset mid" using m Cons by simp
    have p': "\<forall>x \<in> set (B2 @ [b]). \<not> lt x pv" using p(2) Cons by simp
    from g m' p(1) p' show ?thesis by blast
  qed
qed

lemma quickSort_segments:
  assumes ok: "less_ok lessf lt"
    and tr: "\<And>a b c. lt a b \<Longrightarrow> lt b c \<Longrightarrow> lt a c"
    and irr: "\<And>a. \<not> lt a a"
  shows "\<exists>mid'. quickSort (pre @ mid @ post) (int (length pre))
                   (int (length pre + length mid) - 1) lessf = Inr (pre @ mid' @ post)
               \<and> mset mid' = mset mid \<and> sorted_wrt (\<lambda>a b. \<not> lt b a) mid'"
proof (induction "length mid" arbitrary: mid pre post rule: less_induct)
  case less
  note unf = quickSort.simps[of "pre @ mid @ post" "int (length pre)"
                "int (length pre + length mid) - 1" lessf]
  show ?case
  proof (cases "length mid \<le> 1")
    case True
    then have "\<not> int (length pre) < int (length pre + length mid) - 1" by simp
    with unf have g: "quickSort (pre @ mid @ post) (int (length pre))
                   (int (length pre + length mid) - 1) lessf = Inr (pre @ mid @ post)"
      by simp
    from True have "sorted_wrt (\<lambda>a b. \<not> lt b a) mid"
      by (cases mid) (auto simp: le_Suc_eq)
    with g show ?thesis by blast
  next
    case False
    then have lh: "int (length pre) < int (length pre + length mid) - 1" by simp
    from False obtain mid0 pv where mid: "mid = mid0 @ [pv]"
      by (cases mid rule: rev_cases) auto
    from partition_entries_segments[OF ok, of pre mid0 pv post]
    obtain L R where
      pe: "partition_entries (pre @ mid0 @ pv # post) (int (length pre))
                 (int (length pre + length mid0)) lessf
               = Inr (pre @ L @ pv # R @ post, int (length pre + length L))"
      and m: "mset (L @ R) = mset mid0"
      and pL: "\<forall>a \<in> set L. lt a pv" and pR: "\<forall>b \<in> set R. \<not> lt b pv"
      by blast
    have len0: "length mid0 = length L + length R"
      using m by (metis length_append mset_eq_length)
    have pe': "partition_entries (pre @ mid @ post) (int (length pre))
                 (int (length pre + length mid) - 1) lessf
               = Inr (pre @ L @ pv # R @ post, int (length pre + length L))"
      using pe mid by simp
    have "length L < length mid" using len0 mid by simp
    from less(1)[OF this, of pre "pv # R @ post"]
    obtain L' where
      qL: "quickSort (pre @ L @ pv # R @ post) (int (length pre))
             (int (length pre + length L) - 1) lessf = Inr (pre @ L' @ pv # R @ post)"
      and mL: "mset L' = mset L" and sL: "sorted_wrt (\<lambda>a b. \<not> lt b a) L'"
      by blast
    have lenL: "length L' = length L" using mL by (metis mset_eq_length)
    have "length R < length mid" using len0 mid by simp
    from less(1)[OF this, of "pre @ L' @ [pv]" post]
    obtain R' where
      qR: "quickSort ((pre @ L' @ [pv]) @ R @ post) (int (length (pre @ L' @ [pv])))
             (int (length (pre @ L' @ [pv]) + length R) - 1) lessf
           = Inr ((pre @ L' @ [pv]) @ R' @ post)"
      and mR: "mset R' = mset R" and sR: "sorted_wrt (\<lambda>a b. \<not> lt b a) R'"
      by blast
    have i1: "int (length (pre @ L' @ [pv])) = int (length pre + length L) + 1"
      using lenL by simp
    have h1: "int (length (pre @ L' @ [pv]) + length R) - 1 = int (length pre + length mid) - 1"
      using lenL len0 mid by simp
    have e1: "(pre @ L' @ [pv]) @ R @ post = pre @ L' @ pv # R @ post" by simp
    have e2: "(pre @ L' @ [pv]) @ R' @ post = pre @ (L' @ pv # R') @ post" by simp
    from qR have qR': "quickSort (pre @ L' @ pv # R @ post) (int (length pre + length L) + 1)
             (int (length pre + length mid) - 1) lessf = Inr (pre @ (L' @ pv # R') @ post)"
      unfolding i1 h1 e1 e2 .
    have g: "quickSort (pre @ mid @ post) (int (length pre))
                   (int (length pre + length mid) - 1) lessf = Inr (pre @ (L' @ pv # R') @ post)"
      using unf lh pe' qL qR' by simp
    have mm: "mset (L' @ pv # R') = mset mid"
      using mL mR m mid by simp
    have sL': "set L' = set L" using mL by (rule mset_eq_setD)
    have sR': "set R' = set R" using mR by (rule mset_eq_setD)
    have a1: "\<forall>x \<in> set L'. \<not> lt pv x"
      using pL sL' tr irr by blast
    have a2: "\<forall>y \<in> set R'. \<not> lt y pv"
      using pR sR' by blast
    have a3: "\<forall>x \<in> set L'. \<forall>y \<in> set R'. \<not> lt y x"
      using pL pR sL' sR' tr by blast
    have ss: "sorted_wrt (\<lambda>a b. \<not> lt b a) (L' @ pv # R')"
      using sL sR a1 a2 a3 by (auto simp: sorted_wrt_append)
    from g mm ss show ?thesis by blast
  qed
qed

lemma less_closure_ok: "less_ok (less_closure w rv) (key_lt w rv)"
  by (simp add: less_ok_def less_closure_def key_lt_def foldedName_def)

lemma sortEntries_correct:
  "\<exists>res. sortEntries w rv es = Inr res \<and> mset res = mset es
         \<and> (if rv then sorted (rev (map (foldedName w) res))
             else sorted (map (foldedName w) res))"
proof -
  have tr: "\<And>a b c. key_lt w rv a b \<Longrightarrow> key_lt w rv b c \<Longrightarrow> key_lt w rv a c"
    by (auto simp: key_lt_def split: if_splits)
  have irr: "\<And>a. \<not> key_lt w rv a a"
    by (simp add: key_lt_def)
  from quickSort_segments[OF less_closure_ok, of w rv "[]" es "[]"] tr irr
  obtain res where q: "quickSort ([] @ es @ []) (int (length ([]::FileInfo list)))
        (int (length ([]::FileInfo list) + length es) - 1) (less_closure w rv) = Inr ([] @ res @ [])"
      and m: "mset res = mset es" and s: "sorted_wrt (\<lambda>a b. \<not> key_lt w rv b a) res"
    by blast
  from q have q': "sortEntries w rv es = Inr res"
    by (simp add: sortEntries_def)
  have "(if rv then sorted (rev (map (foldedName w) res)) else sorted (map (foldedName w) res))"
  proof (cases rv)
    case True
    with s have "sorted_wrt (\<lambda>a b. foldedName w b \<le> foldedName w a) res"
      by (simp add: key_lt_def not_less)
    then show ?thesis using True
      by (simp add: sorted_wrt_rev sorted_wrt_map)
  next
    case False
    with s have "sorted_wrt (\<lambda>a b. foldedName w a \<le> foldedName w b) res"
      by (simp add: key_lt_def not_less)
    then show ?thesis using False by (simp add: sorted_map)
  qed
  with q' m show ?thesis by blast
qed

lemma readDir_ok:
  assumes "Open w path = Inr f" and "Readdir w f = Inr entries"
  shows "\<exists>res. readDir w path show_hidden rev_flag = Inr (Inr res)
          \<and> mset res = mset (filter (keep_entry show_hidden) entries)
          \<and> (if rev_flag then sorted (rev (map (foldedName w) res))
              else sorted (map (foldedName w) res))"
proof -
  from sortEntries_correct[of w rev_flag "filter (keep_entry show_hidden) entries"]
  obtain res where "sortEntries w rev_flag (filter (keep_entry show_hidden) entries) = Inr res"
    and "mset res = mset (filter (keep_entry show_hidden) entries)"
    and "(if rev_flag then sorted (rev (map (foldedName w) res))
              else sorted (map (foldedName w) res))"
    by blast
  with assms show ?thesis by (simp add: readDir_def)
qed

lemma readDir_no_panic: "readDir w path show_hidden rev_flag \<noteq> Inl p"
proof (cases "Open w path")
  case (Inl e)
  then show ?thesis by (simp add: readDir_def)
next
  case (Inr f)
  show ?thesis
  proof (cases "Readdir w f")
    case (Inl e)
    with Inr show ?thesis by (simp add: readDir_def)
  next
    case rd: (Inr entries)
    from readDir_ok[OF Inr rd, of show_hidden rev_flag] show ?thesis by auto
  qed
qed

section \<open>The directory reader\<close>

text \<open>
  C1: for every directory that can be opened and read, \<open>readDir\<close> returns a
  permutation of the entries that pass the filter, ordered by the bytewise order of the
  lower-cased names: ascending without the reverse flag, descending with it.
\<close>

theorem readDir_sorted_permutation:
  assumes "Open w path = Inr f" and "Readdir w f = Inr entries"
  shows "\<exists>res. readDir w path show_hidden rev_flag = Inr (Inr res)
          \<and> mset res = mset (filter (keep_entry show_hidden) entries)
          \<and> (if rev_flag then sorted (rev (map (foldedName w) res))
              else sorted (map (foldedName w) res))"
  using assms by (rule readDir_ok)

theorem readDir_sorted_permutation_witness:
  "Open exampleWorld ''r'' = Inr 3 \<and> Readdir exampleWorld 3 = Inr exampleRoot
   \<and> (\<exists>res. readDir exampleWorld ''r'' False True = Inr (Inr res)
          \<and> mset res = mset (filter (keep_entry False) exampleRoot)
          \<and> sorted (rev (map (foldedName exampleWorld) res)))"
proof -
  have h1: "Open exampleWorld ''r'' = Inr 3" by code_simp
  have h2: "Readdir exampleWorld 3 = Inr exampleRoot" by code_simp
  from readDir_sorted_permutation[OF h1 h2, of False True] h1 h2 show ?thesis by simp
qed

text \<open>
  C2: with show-hidden off, \<open>readDir\<close> yields exactly the entries whose names do not
  start with a dot; with show-hidden on, it drops no entry.
\<close>

theorem readDir_hidden_filter:
  assumes "Open w path = Inr f" and "Readdir w f = Inr entries"
  shows "(\<exists>res. readDir w path False rev_flag = Inr (Inr res)
            \<and> mset res = mset (filter (\<lambda>e. take 1 (Name e) \<noteq> ''.'') entries))
       \<and> (\<exists>res. readDir w path True rev_flag = Inr (Inr res) \<and> mset res = mset entries)"
proof -
  have k: "keep_entry False = (\<lambda>e. take 1 (Name e) \<noteq> ''.'')"
    by (rule ext) (auto simp: keep_entry_def HasPrefix_def)
  have t: "filter (keep_entry True) entries = entries"
    by (simp add: keep_entry_def)
  from readDir_ok[OF assms, of False rev_flag] readDir_ok[OF assms, of True rev_flag]
  show ?thesis unfolding k t by blast
qed

theorem readDir_hidden_filter_witness:
  "Open exampleWorld ''r'' = Inr 3 \<and> Readdir exampleWorld 3 = Inr exampleRoot
   \<and> (\<exists>res. readDir exampleWorld ''r'' False False = Inr (Inr res)
          \<and> mset res = mset [mkInfo ''b.txt'' regularMode, mkInfo ''A'' regularMode,
               mkInfo ''link'' linkMode, mkInfo ''sub'' dirMode, mkInfo ''locked'' dirMode])
   \<and> (\<exists>res. readDir exampleWorld ''r'' True False = Inr (Inr res)
          \<and> mset res = mset exampleRoot)"
proof -
  have h1: "Open exampleWorld ''r'' = Inr 3" by code_simp
  have h2: "Readdir exampleWorld 3 = Inr exampleRoot" by code_simp
  have f: "filter (\<lambda>e. take 1 (Name e) \<noteq> ''.'') exampleRoot
      = [mkInfo ''b.txt'' regularMode, mkInfo ''A'' regularMode,
         mkInfo ''link'' linkMode, mkInfo ''sub'' dirMode, mkInfo ''locked'' dirMode]"
    by (simp add: exampleRoot_def mkInfo_def)
  from readDir_hidden_filter[OF h1 h2, of False] h1 h2 show ?thesis
    unfolding f by simp
qed

text \<open>
  C9: the call \<open>quickSort(entries, 0, len(entries)-1, less)\<close> of \<open>readDir\<close>
  returns without an index out of range, for every slice; \<open>quickSort\<close> is a total
  function, and the pivot index that \<open>partition\<close> returns lies between \<open>low\<close> and
  \<open>high\<close>, so both recursive calls get a strictly smaller index range.
\<close>

theorem quickSort_terminates_in_bounds:
  "(\<exists>res. quickSort entries 0 (int (length entries) - 1) (less_closure w rev_flag) = Inr res
          \<and> length res = length entries)
   \<and> (\<forall>low high lessf entries' p.
         low < high \<and> partition_entries entries low high lessf = Inr (entries', p)
         \<longrightarrow> (p - 1) - low < high - low \<and> high - (p + 1) < high - low)"
proof -
  from sortEntries_correct[of w rev_flag entries]
  obtain res where "sortEntries w rev_flag entries = Inr res" and "mset res = mset entries"
    by blast
  then have a: "\<exists>res. quickSort entries 0 (int (length entries) - 1) (less_closure w rev_flag)
      = Inr res \<and> length res = length entries"
    by (auto simp: sortEntries_def dest: mset_eq_length)
  have b: "(p - 1) - low < high - low \<and> high - (p + 1) < high - low"
    if "low < high" "partition_entries entries low high lessf = Inr (entries', p)"
    for low high lessf entries' p
    using partition_entries_range[of entries low high lessf entries' p] that by simp
  from a b show ?thesis by blast
qed

theorem quickSort_terminates_in_bounds_witness:
  "quickSort [mkInfo ''b'' regularMode, mkInfo ''a'' regularMode] 0 1
      (less_closure exampleWorld False)
     = Inr [mkInfo ''a'' regularMode, mkInfo ''b'' regularMode]
   \<and> partition_entries [mkInfo ''b'' regularMode, mkInfo ''a'' regularMode] 0 1
      (less_closure exampleWorld False)
     = Inr ([mkInfo ''a'' regularMode, mkInfo ''b'' regularMode], 0)
   \<and> (0 - 1) - 0 < (1::int) - 0 \<and> 1 - (0 + 1) < (1::int) - 0"
proof -
  have q: "quickSort [mkInfo ''b'' regularMode, mkInfo ''a'' regularMode] 0 1
      (less_closure exampleWorld False)
     = Inr [mkInfo ''a'' regularMode, mkInfo ''b'' regularMode]"
    by code_simp
  have p: "partition_entries [mkInfo ''b'' regularMode, mkInfo ''a'' regularMode] 0 1
      (less_closure exampleWorld False)
     = Inr ([mkInfo ''a'' regularMode, mkInfo ''b'' regularMode], 0)"
    by code_simp
  from quickSort_terminates_in_bounds[of "[mkInfo ''b'' regularMode, mkInfo ''a'' regularMode]"
      exampleWorld False] q p
  show ?thesis by simp
qed

section \<open>Sorting twice, sorting in reverse\<close>

lemma sortEntries_folded:
  assumes "sortEntries w False x = Inr s"
  shows "map (foldedName w) s = sort (map (foldedName w) x)" and "mset s = mset x"
proof -
  from sortEntries_correct[of w False x] assms
  have m: "mset s = mset x" and so: "sorted (map (foldedName w) s)" by auto
  from m have "mset (map (foldedName w) s) = mset (map (foldedName w) x)" by simp
  with so show "map (foldedName w) s = sort (map (foldedName w) x)"
    by (metis properties_for_sort)
  from m show "mset s = mset x" .
qed

lemma sortEntries_folded_rev:
  assumes "sortEntries w True x = Inr s"
  shows "map (foldedName w) s = rev (sort (map (foldedName w) x))" and "mset s = mset x"
proof -
  from sortEntries_correct[of w True x] assms
  have m: "mset s = mset x" and so: "sorted (rev (map (foldedName w) s))" by auto
  from m have "mset (rev (map (foldedName w) s)) = mset (map (foldedName w) x)" by simp
  with so have "rev (map (foldedName w) s) = sort (map (foldedName w) x)"
    by (metis properties_for_sort)
  then show "map (foldedName w) s = rev (sort (map (foldedName w) x))"
    by (metis rev_rev_ident)
  from m show "mset s = mset x" .
qed

lemma map_eq_distinct_keys:
  assumes "map f xs = map f ys" "set xs \<subseteq> A" "set ys \<subseteq> A" "inj_on f A"
  shows "xs = ys"
proof -
  from assms(2-4) have "inj_on f (set xs \<union> set ys)"
    by (meson Un_least inj_on_subset)
  with assms(1) show ?thesis by (simp add: inj_on_map_eq_map)
qed

text \<open>
  C6, as amended: for every list of entries, sorting the sorted list again leaves the
  sequence of case-folded names unchanged, and the case-folded names of the reversed
  ascending sort are those of the sort with the reverse flag. When the case-folded names of
  the list are pairwise distinct, the lists of entries themselves are equal: sorting is
  idempotent, a sorted list is left unchanged, and reversing the ascending sort gives the
  descending sort.
\<close>

theorem sort_folded_names_stable:
  "\<exists>s s2 sr. sortEntries w False x = Inr s \<and> sortEntries w False s = Inr s2
      \<and> sortEntries w True x = Inr sr
      \<and> map (foldedName w) s2 = map (foldedName w) s
      \<and> map (foldedName w) (rev s) = map (foldedName w) sr
      \<and> (distinct (map (foldedName w) x) \<longrightarrow> s2 = s \<and> rev s = sr)
      \<and> (distinct (map (foldedName w) x) \<and> sorted (map (foldedName w) x) \<longrightarrow> s = x)"
proof -
  from sortEntries_correct[of w False x] obtain s where s: "sortEntries w False x = Inr s"
    by blast
  from sortEntries_correct[of w False s] obtain s2 where s2: "sortEntries w False s = Inr s2"
    by blast
  from sortEntries_correct[of w True x] obtain sr where sr: "sortEntries w True x = Inr sr"
    by blast
  note fs = sortEntries_folded[OF s]
  note fs2 = sortEntries_folded[OF s2]
  note fsr = sortEntries_folded_rev[OF sr]
  have k1: "map (foldedName w) s2 = map (foldedName w) s"
    using fs(1) fs2(1) by (simp add: sort_key_id_if_sorted)
  have k2: "map (foldedName w) (rev s) = map (foldedName w) sr"
    using fs(1) fsr(1) by (metis rev_map)
  have sets: "set s = set x" "set s2 = set x" "set sr = set x"
    using fs(2) fs2(2) fsr(2) by (metis mset_eq_setD)+
  have d: "s2 = s \<and> rev s = sr" if "distinct (map (foldedName w) x)"
  proof -
    from that have inj: "inj_on (foldedName w) (set x)" by (simp add: distinct_map)
    have "s2 = s"
      using map_eq_distinct_keys[OF k1 _ _ inj] sets by simp
    moreover have "rev s = sr"
      using map_eq_distinct_keys[OF k2 _ _ inj] sets by simp
    ultimately show ?thesis ..
  qed
  have e: "s = x" if "distinct (map (foldedName w) x)" "sorted (map (foldedName w) x)"
  proof -
    from that have inj: "inj_on (foldedName w) (set x)" by (simp add: distinct_map)
    from that(2) have "sort (map (foldedName w) x) = map (foldedName w) x"
      by (simp add: sort_key_id_if_sorted)
    with fs(1) have "map (foldedName w) s = map (foldedName w) x" by simp
    from map_eq_distinct_keys[OF this _ _ inj] sets show ?thesis by simp
  qed
  from s s2 sr k1 k2 d e show ?thesis by blast
qed

theorem sort_folded_names_stable_witness:
  "sortEntries exampleWorld False [mkInfo ''b.txt'' regularMode, mkInfo ''A'' regularMode]
     = Inr [mkInfo ''A'' regularMode, mkInfo ''b.txt'' regularMode]
   \<and> sortEntries exampleWorld False [mkInfo ''A'' regularMode, mkInfo ''b.txt'' regularMode]
     = Inr [mkInfo ''A'' regularMode, mkInfo ''b.txt'' regularMode]
   \<and> sortEntries exampleWorld True [mkInfo ''b.txt'' regularMode, mkInfo ''A'' regularMode]
     = Inr (rev [mkInfo ''A'' regularMode, mkInfo ''b.txt'' regularMode])
   \<and> distinct (map (foldedName exampleWorld)
        [mkInfo ''b.txt'' regularMode, mkInfo ''A'' regularMode])
   \<and> distinct (map (foldedName exampleWorld)
        [mkInfo ''A'' regularMode, mkInfo ''b.txt'' regularMode])
   \<and> sorted (map (foldedName exampleWorld)
        [mkInfo ''A'' regularMode, mkInfo ''b.txt'' regularMode])"
proof -
  let ?x = "[mkInfo ''b.txt'' regularMode, mkInfo ''A'' regularMode]"
  let ?s = "[mkInfo ''A'' regularMode, mkInfo ''b.txt'' regularMode]"
  have d: "distinct (map (foldedName exampleWorld) ?x)" by code_simp
  have d': "distinct (map (foldedName exampleWorld) ?s)" by code_simp
  have so: "sorted (map (foldedName exampleWorld) ?s)" by code_simp
  have a: "sortEntries exampleWorld False ?x = Inr ?s" by code_simp
  from sort_folded_names_stable[of exampleWorld ?s] d' so
  have b: "sortEntries exampleWorld False ?s = Inr ?s" by auto
  from sort_folded_names_stable[of exampleWorld ?x] a b d
  have c: "sortEntries exampleWorld True ?x = Inr (rev ?s)" by auto
  from a b c d d' so show ?thesis by blast
qed

text \<open>
  The claim C6 as stated fails for two entries whose names differ only in case: the list
  \<open>B, b\<close> is in ascending order, the sort exchanges the two, sorting the result
  exchanges them back, and the sort with the reverse flag is not the reversed ascending
  sort.
\<close>

theorem sort_idempotent_counterexample:
  "sorted (map (foldedName exampleWorld) [mkInfo ''B'' regularMode, mkInfo ''b'' regularMode])
   \<and> sortEntries exampleWorld False [mkInfo ''B'' regularMode, mkInfo ''b'' regularMode]
       = Inr [mkInfo ''b'' regularMode, mkInfo ''B'' regularMode]
   \<and> sortEntries exampleWorld False [mkInfo ''b'' regularMode, mkInfo ''B'' regularMode]
       \<noteq> Inr [mkInfo ''b'' regularMode, mkInfo ''B'' regularMode]
   \<and> sortEntries exampleWorld True [mkInfo ''B'' regularMode, mkInfo ''b'' regularMode]
       \<noteq> Inr (rev [mkInfo ''b'' regularMode, mkInfo ''B'' regularMode])"
  by code_simp

section \<open>The max-depth option\<close>

lemma printNode_maxDepth:
  "printNode w name info (opts\<lparr>maxDepth := d\<rparr>) prefix isRoot printName linkTarget isSymlink
     = printNode w name info opts prefix isRoot printName linkTarget isSymlink"
  by (simp add: printNode_def displayName_def Let_def)

lemma resolveSymlink_maxDepth:
  "resolveSymlink w (opts\<lparr>maxDepth := d\<rparr>) path e = resolveSymlink w opts path e"
  by (simp add: resolveSymlink_def Let_def)

lemma printEntry_maxDepth:
  "printEntry recurse w (opts\<lparr>maxDepth := d\<rparr>) path prefix isLast e
     = printEntry recurse w opts path prefix isLast e"
  by (simp add: printEntry_def resolveSymlink_maxDepth printNode_maxDepth Let_def)

lemma printEntries_maxDepth:
  "printEntries recurse w (opts\<lparr>maxDepth := d\<rparr>) path prefix n i es
     = printEntries recurse w opts path prefix n i es"
  by (induction es arbitrary: i)
    (simp_all add: printEntry_maxDepth cong: option.case_cong prod.case_cong status.case_cong)

lemma printTree_maxDepth:
  "printTree fuel w path (opts\<lparr>maxDepth := d\<rparr>) prefix isRoot
     = printTree fuel w path opts prefix isRoot"
proof (induction fuel arbitrary: path prefix isRoot)
  case 0
  show ?case by simp
next
  case (Suc fuel)
  have r: "(\<lambda>entryPath newPrefix. printTree fuel w entryPath (opts\<lparr>maxDepth := d\<rparr>) newPrefix False)
      = (\<lambda>entryPath newPrefix. printTree fuel w entryPath opts newPrefix False)"
    by (intro ext) (rule Suc.IH)
  show ?case
    by (simp add: r printEntries_maxDepth printNode_maxDepth Let_def
        cong: sum.case_cong option.case_cong prod.case_cong if_cong)
qed

lemma listRoots_maxDepth:
  "listRoots fuel w (opts\<lparr>maxDepth := d\<rparr>) n i paths = listRoots fuel w opts n i paths"
  by (induction paths arbitrary: i)
    (simp_all add: printTree_maxDepth cong: option.case_cong prod.case_cong status.case_cong)

text \<open>
  C7: two runs whose options differ only in \<open>maxDepth\<close> produce the same output and end
  the same way, in \<open>printTree\<close> and in the loop of \<open>main\<close> over the roots: the field
  is never read.
\<close>

theorem maxDepth_has_no_effect:
  "printTree fuel w path (opts\<lparr>maxDepth := d\<rparr>) prefix isRoot
     = printTree fuel w path opts prefix isRoot
   \<and> listRoots fuel w (opts\<lparr>maxDepth := d\<rparr>) n i paths = listRoots fuel w opts n i paths"
  by (simp add: printTree_maxDepth listRoots_maxDepth)

theorem maxDepth_has_no_effect_witness:
  "printTree 3 exampleWorld ''r'' (noOptions\<lparr>maxDepth := 1\<rparr>) [] True
     = printTree 3 exampleWorld ''r'' noOptions [] True
   \<and> listRoots 3 exampleWorld (noOptions\<lparr>maxDepth := 1\<rparr>) 2 0 [''r'', ''r/sub'']
     = listRoots 3 exampleWorld noOptions 2 0 [''r'', ''r/sub'']"
  by (rule maxDepth_has_no_effect)

section \<open>The tree printer\<close>

lemma printNode_line:
  "printNode w name info opts linePrefix False printName linkTarget isSymlink
     = [Stdout (linePrefix @ lineText w name info opts linkTarget isSymlink)]"
  by (simp add: printNode_def lineText_def longColumns_def Let_def)

lemma printEntry_first_line:
  assumes "printEntry recurse w opts path prefix isLast e = Some (out, st)"
  shows "\<exists>text rest. out = Stdout (prefix @ glyph isLast @ text) # rest"
  using assms
  by (auto simp: printEntry_def printNode_line glyph_def Let_def
      split: prod.splits if_splits option.splits status.splits)

lemma printEntry_returned:
  assumes "printEntry recurse w opts path prefix isLast e = Some (out, Returned r)"
  shows "r = None"
  using assms
  by (auto simp: printEntry_def Let_def split: prod.splits if_splits option.splits status.splits)

text \<open>
  The loop body and the loop give a result whenever the recursive call does, and the
  process dies in them only where it dies in the recursive call.
\<close>

lemma printEntry_total:
  assumes "\<And>p pre. \<exists>r. recurse p pre = Some r"
  shows "\<exists>out st. printEntry recurse w opts path prefix isLast e = Some (out, st)"
proof -
  obtain entry entryPath entryIsSymlink linkTarget where
    rs: "resolveSymlink w opts path e = (entry, entryPath, entryIsSymlink, linkTarget)"
    by (cases "resolveSymlink w opts path e") auto
  from assms obtain sub s where
    "recurse entryPath (prefix @ (if isLast then space else pipe)) = Some (sub, s)"
    by (metis surj_pair)
  with rs show ?thesis
    by (cases s) (simp_all add: printEntry_def Let_def)
qed

lemma printEntry_panic:
  assumes "\<And>p pre out q. recurse p pre = Some (out, Panicked q) \<Longrightarrow> q = StackOverflow"
    and "printEntry recurse w opts path prefix isLast e = Some (out, Panicked q)"
  shows "q = StackOverflow"
  using assms(2) assms(1)
  by (auto simp: printEntry_def Let_def split: prod.splits if_splits option.splits status.splits)

lemma printEntries_panic:
  assumes "\<And>p pre out q. recurse p pre = Some (out, Panicked q) \<Longrightarrow> q = StackOverflow"
  shows "printEntries recurse w opts path prefix n i es = Some (out, Panicked q)
     \<Longrightarrow> q = StackOverflow"
proof (induction es arbitrary: i out)
  case Nil
  then show ?case by simp
next
  case (Cons e es)
  show ?case
  proof (cases "printEntry recurse w opts path prefix (int i = int n - 1) e")
    case None
    with Cons.prems show ?thesis by simp
  next
    case (Some r1)
    obtain o1 s1 where r1: "r1 = (o1, s1)" by (cases r1) auto
    show ?thesis
    proof (cases s1)
      case (Panicked p)
      with Cons.prems Some r1 have "p = q" by simp
      moreover have "p = StackOverflow"
      proof (rule printEntry_panic[rotated])
        show "printEntry recurse w opts path prefix (int i = int n - 1) e = Some (o1, Panicked p)"
          using Some r1 Panicked by simp
      qed (erule assms)
      ultimately show ?thesis by simp
    next
      case (Returned r)
      with Cons.prems Some r1 obtain o2 where
        "printEntries recurse w opts path prefix n (i + 1) es = Some (o2, Panicked q)"
        by (auto split: option.splits prod.splits)
      then show ?thesis by (rule Cons.IH)
    qed
  qed
qed

lemma printEntries_blocks:
  assumes tot: "\<And>p pre. \<exists>r. recurse p pre = Some r"
  shows "\<exists>blocks st.
           printEntries recurse w opts path prefix n i es = Some (concat blocks, st)
         \<and> length blocks \<le> length es
         \<and> (\<forall>k < length blocks. \<exists>s.
               printEntry recurse w opts path prefix (int (i + k) = int n - 1) (es ! k)
                 = Some (blocks ! k, s))
         \<and> (st = Returned None \<and> length blocks = length es \<or> (\<exists>p. st = Panicked p))
         \<and> ((\<forall>k < length es. \<exists>out.
                printEntry recurse w opts path prefix (int (i + k) = int n - 1) (es ! k)
                  = Some (out, Returned None))
              \<longrightarrow> st = Returned None)"
proof (induction es arbitrary: i)
  case Nil
  show ?case by (rule exI[of _ "[]"]) simp
next
  case (Cons e es)
  from printEntry_total[of recurse w opts path prefix "int i = int n - 1" e, OF tot]
  obtain o1 s1 where
    e1: "printEntry recurse w opts path prefix (int i = int n - 1) e = Some (o1, s1)"
    by blast
  show ?case
  proof (cases s1)
    case (Panicked p)
    have r: "printEntries recurse w opts path prefix n i (e # es) = Some (concat [o1], Panicked p)"
      using e1 Panicked by simp
    have a: "\<forall>k < length [o1]. \<exists>s.
               printEntry recurse w opts path prefix (int (i + k) = int n - 1) ((e # es) ! k)
                 = Some ([o1] ! k, s)"
      using e1 by simp
    have b: "\<not> (\<forall>k < length (e # es). \<exists>out.
                printEntry recurse w opts path prefix (int (i + k) = int n - 1) ((e # es) ! k)
                  = Some (out, Returned None))"
    proof
      assume "\<forall>k < length (e # es). \<exists>out.
                printEntry recurse w opts path prefix (int (i + k) = int n - 1) ((e # es) ! k)
                  = Some (out, Returned None)"
      then have "0 < length (e # es) \<longrightarrow> (\<exists>out. printEntry recurse w opts path prefix
          (int (i + 0) = int n - 1) ((e # es) ! 0) = Some (out, Returned None))" by blast
      with e1 Panicked show False by simp
    qed
    have c: "length [o1] \<le> length (e # es)" by simp
    from r a b c show ?thesis by blast
  next
    case (Returned r)
    from printEntry_returned[of recurse w opts path prefix "int i = int n - 1" e o1 r] e1 Returned
    have e1': "printEntry recurse w opts path prefix (int i = int n - 1) e = Some (o1, Returned None)"
      by simp
    from Cons.IH[of "i + 1"] obtain blocks st where
      l: "printEntries recurse w opts path prefix n (i + 1) es = Some (concat blocks, st)"
      and len: "length blocks \<le> length es"
      and bl: "\<forall>k < length blocks. \<exists>s.
               printEntry recurse w opts path prefix (int (i + 1 + k) = int n - 1) (es ! k)
                 = Some (blocks ! k, s)"
      and fin: "st = Returned None \<and> length blocks = length es \<or> (\<exists>p. st = Panicked p)"
      and compl: "(\<forall>k < length es. \<exists>out.
                printEntry recurse w opts path prefix (int (i + 1 + k) = int n - 1) (es ! k)
                  = Some (out, Returned None))
              \<longrightarrow> st = Returned None"
      by blast
    have r': "printEntries recurse w opts path prefix n i (e # es)
        = Some (concat (o1 # blocks), st)"
      using e1' l by simp
    have a: "\<forall>k < length (o1 # blocks). \<exists>s.
               printEntry recurse w opts path prefix (int (i + k) = int n - 1) ((e # es) ! k)
                 = Some ((o1 # blocks) ! k, s)"
    proof (intro allI impI)
      fix k assume k: "k < length (o1 # blocks)"
      show "\<exists>s. printEntry recurse w opts path prefix (int (i + k) = int n - 1) ((e # es) ! k)
                 = Some ((o1 # blocks) ! k, s)"
      proof (cases k)
        case 0
        with e1' show ?thesis by auto
      next
        case (Suc k')
        with k bl have "\<exists>s. printEntry recurse w opts path prefix
            (int (i + 1 + k') = int n - 1) (es ! k') = Some (blocks ! k', s)" by simp
        with Suc show ?thesis by (simp add: add.commute add.left_commute)
      qed
    qed
    have c: "length (o1 # blocks) \<le> length (e # es)" using len by simp
    have d: "st = Returned None \<and> length (o1 # blocks) = length (e # es) \<or> (\<exists>p. st = Panicked p)"
      using fin by auto
    have f: "(\<forall>k < length (e # es). \<exists>out.
                printEntry recurse w opts path prefix (int (i + k) = int n - 1) ((e # es) ! k)
                  = Some (out, Returned None))
              \<longrightarrow> st = Returned None"
    proof
      assume h: "\<forall>k < length (e # es). \<exists>out.
                printEntry recurse w opts path prefix (int (i + k) = int n - 1) ((e # es) ! k)
                  = Some (out, Returned None)"
      have "\<forall>k < length es. \<exists>out.
                printEntry recurse w opts path prefix (int (i + 1 + k) = int n - 1) (es ! k)
                  = Some (out, Returned None)"
      proof (intro allI impI)
        fix k assume "k < length es"
        then have "Suc k < length (e # es)" by simp
        with h have "\<exists>out. printEntry recurse w opts path prefix (int (i + Suc k) = int n - 1)
            ((e # es) ! Suc k) = Some (out, Returned None)" by blast
        then show "\<exists>out. printEntry recurse w opts path prefix (int (i + 1 + k) = int n - 1)
            (es ! k) = Some (out, Returned None)"
          by (simp add: add.commute add.left_commute)
      qed
      with compl show "st = Returned None" by blast
    qed
    from r' a c d f show ?thesis by blast
  qed
qed

lemma printTree_total:
  "\<exists>r. printTree fuel w path opts prefix isRoot = Some r"
proof (induction fuel arbitrary: path prefix isRoot)
  case 0
  show ?case by simp
next
  case (Suc fuel)
  let ?rec = "\<lambda>entryPath newPrefix. printTree fuel w entryPath opts newPrefix False"
  have tot: "\<And>p pre. \<exists>r. ?rec p pre = Some r" by (rule Suc.IH)
  show ?case
  proof (cases "Lstat w path")
    case (Inl err)
    then show ?thesis by simp
  next
    case (Inr info)
    show ?thesis
    proof (cases "readDir w path (showHidden opts) (reverse opts)")
      case (Inl p)
      with Inr show ?thesis by simp
    next
      case rd: (Inr x)
      show ?thesis
      proof (cases x)
        case (Inl err)
        with Inr rd show ?thesis by simp
      next
        case es: (Inr entries)
        from printEntries_blocks[of ?rec w opts path prefix "length entries" 0 entries, OF tot]
        obtain blocks st where
          "printEntries ?rec w opts path prefix (length entries) 0 entries
             = Some (concat blocks, st)" by blast
        with Inr rd es show ?thesis by (simp add: Let_def)
      qed
    qed
  qed
qed

lemma printTree_panic:
  "printTree fuel w path opts prefix isRoot = Some (out, Panicked q) \<Longrightarrow> q = StackOverflow"
proof (induction fuel arbitrary: path prefix isRoot out q)
  case 0
  then show ?case by simp
next
  case (Suc fuel)
  let ?rec = "\<lambda>entryPath newPrefix. printTree fuel w entryPath opts newPrefix False"
  have np: "\<And>p pre out q. ?rec p pre = Some (out, Panicked q) \<Longrightarrow> q = StackOverflow"
    by (rule Suc.IH)
  from Suc.prems readDir_no_panic[of w path "showHidden opts" "reverse opts"]
  obtain entries o2 where
    "printEntries ?rec w opts path prefix (length entries) 0 entries = Some (o2, Panicked q)"
    by (auto simp: Let_def split: sum.splits option.splits prod.splits)
  then show ?case
    by (rule printEntries_panic[rotated]) (erule np)
qed

text \<open>
  A listing that returns does not depend on the depth allowed: once \<open>printTree\<close>
  returns within some depth, it returns the same output within any greater depth.
\<close>

lemma printEntry_mono:
  assumes "\<And>p pre out r. recurse p pre = Some (out, Returned r)
             \<Longrightarrow> recurse' p pre = Some (out, Returned r)"
    and "printEntry recurse w opts path prefix isLast e = Some (out, Returned r)"
  shows "printEntry recurse' w opts path prefix isLast e = Some (out, Returned r)"
proof -
  obtain entry entryPath entryIsSymlink linkTarget where
    rs: "resolveSymlink w opts path e = (entry, entryPath, entryIsSymlink, linkTarget)"
    by (cases "resolveSymlink w opts path e") auto
  show ?thesis
  proof (cases "IsDir entry")
    case False
    with assms(2) rs show ?thesis by (simp add: printEntry_def Let_def)
  next
    case True
    let ?np = "prefix @ (if isLast then space else pipe)"
    from assms(2) rs True obtain sub r' where r: "recurse entryPath ?np = Some (sub, Returned r')"
      by (auto simp: printEntry_def Let_def split: option.splits prod.splits status.splits)
    from assms(1)[OF r] have r': "recurse' entryPath ?np = Some (sub, Returned r')" .
    from assms(2) rs True r r' show ?thesis
      by (simp add: printEntry_def Let_def)
  qed
qed

lemma printEntries_mono:
  assumes "\<And>p pre out r. recurse p pre = Some (out, Returned r)
             \<Longrightarrow> recurse' p pre = Some (out, Returned r)"
  shows "printEntries recurse w opts path prefix n i es = Some (out, Returned r)
     \<Longrightarrow> printEntries recurse' w opts path prefix n i es = Some (out, Returned r)"
proof (induction es arbitrary: i out)
  case Nil
  then show ?case by simp
next
  case (Cons e es)
  from Cons.prems obtain o1 r1 o2 where
    e1: "printEntry recurse w opts path prefix (int i = int n - 1) e = Some (o1, Returned r1)"
    and e2: "printEntries recurse w opts path prefix n (i + 1) es = Some (o2, Returned r)"
    and o: "out = o1 @ o2"
    by (auto split: option.splits prod.splits status.splits)
  from printEntry_mono[of recurse recurse', OF assms e1]
  have e1': "printEntry recurse' w opts path prefix (int i = int n - 1) e = Some (o1, Returned r1)" .
  from Cons.IH[OF e2]
  have e2': "printEntries recurse' w opts path prefix n (i + 1) es = Some (o2, Returned r)" .
  from e1' e2' o show ?case by simp
qed

lemma printTree_fuel_mono:
  "printTree fuel w path opts prefix isRoot = Some (out, Returned r)
     \<Longrightarrow> printTree (Suc fuel) w path opts prefix isRoot = Some (out, Returned r)"
proof (induction fuel arbitrary: path prefix isRoot out r)
  case 0
  then show ?case by simp
next
  case (Suc fuel)
  let ?rec = "\<lambda>entryPath newPrefix. printTree fuel w entryPath opts newPrefix False"
  let ?rec' = "\<lambda>entryPath newPrefix. printTree (Suc fuel) w entryPath opts newPrefix False"
  have step: "\<And>p pre out r. ?rec p pre = Some (out, Returned r)
      \<Longrightarrow> ?rec' p pre = Some (out, Returned r)"
    by (rule Suc.IH)
  note unf = printTree.simps(2)[of "Suc fuel" w path opts prefix isRoot]
  note unf0 = printTree.simps(2)[of fuel w path opts prefix isRoot]
  show ?case
  proof (cases "Lstat w path")
    case (Inl err)
    with Suc.prems show ?thesis unfolding unf unf0 by simp
  next
    case (Inr info)
    show ?thesis
    proof (cases "readDir w path (showHidden opts) (reverse opts)")
      case (Inl p)
      with Suc.prems Inr show ?thesis unfolding unf unf0 by simp
    next
      case rd: (Inr x)
      show ?thesis
      proof (cases x)
        case (Inl err)
        with Suc.prems Inr rd show ?thesis unfolding unf unf0 by simp
      next
        case es: (Inr entries)
        from Suc.prems Inr rd es obtain o2 where
          l: "printEntries ?rec w opts path prefix (length entries) 0 entries
                = Some (o2, Returned r)"
          unfolding unf0
          by (auto simp: Let_def split: option.splits prod.splits)
        from printEntries_mono[of ?rec ?rec', OF step l]
        have l': "printEntries ?rec' w opts path prefix (length entries) 0 entries
                = Some (o2, Returned r)" .
        from Suc.prems Inr rd es l l' show ?thesis
          unfolding unf unf0 by (simp add: Let_def)
      qed
    qed
  qed
qed

text \<open>
  When does a listing return? The loop body returns for an entry that is no directory, and
  for a directory when the recursive call returns; so \<open>printTree\<close> returns for a
  directory that can be listed whenever the recursive calls for its subdirectories return,
  and with depth one for a directory without subdirectories.
\<close>

lemma printEntry_returns:
  assumes "resolveSymlink w opts path e = (entry, entryPath, entryIsSymlink, linkTarget)"
    and "IsDir entry \<Longrightarrow>
           \<exists>sub r. recurse entryPath (prefix @ (if isLast then space else pipe))
                     = Some (sub, Returned r)"
  shows "\<exists>out. printEntry recurse w opts path prefix isLast e = Some (out, Returned None)"
proof (cases "IsDir entry")
  case False
  with assms(1) show ?thesis by (simp add: printEntry_def Let_def)
next
  case True
  from assms(2)[OF True] obtain sub r where
    "recurse entryPath (prefix @ (if isLast then space else pipe)) = Some (sub, Returned r)"
    by blast
  with assms(1) True show ?thesis by (simp add: printEntry_def Let_def)
qed

lemma printTree_returns:
  assumes "Lstat w path = Inr info"
    and "readDir w path (showHidden opts) (reverse opts) = Inr (Inr entries)"
    and sub: "\<And>e entry entryPath entryIsSymlink linkTarget pre.
           e \<in> set entries
           \<Longrightarrow> resolveSymlink w opts path e = (entry, entryPath, entryIsSymlink, linkTarget)
           \<Longrightarrow> IsDir entry
           \<Longrightarrow> \<exists>out r. printTree fuel w entryPath opts pre False = Some (out, Returned r)"
  shows "\<exists>out. printTree (Suc fuel) w path opts prefix isRoot = Some (out, Returned None)"
proof -
  let ?rec = "\<lambda>entryPath newPrefix. printTree fuel w entryPath opts newPrefix False"
  have tot: "\<And>p pre. \<exists>r. ?rec p pre = Some r" by (rule printTree_total)
  have body: "\<forall>k < length entries. \<exists>out.
      printEntry ?rec w opts path prefix (int (0 + k) = int (length entries) - 1) (entries ! k)
        = Some (out, Returned None)"
  proof (intro allI impI)
    fix k assume k: "k < length entries"
    obtain entry entryPath entryIsSymlink linkTarget where
      rs: "resolveSymlink w opts path (entries ! k)
             = (entry, entryPath, entryIsSymlink, linkTarget)"
      by (cases "resolveSymlink w opts path (entries ! k)") auto
    from k have mem: "entries ! k \<in> set entries" by simp
    show "\<exists>out. printEntry ?rec w opts path prefix (int (0 + k) = int (length entries) - 1)
        (entries ! k) = Some (out, Returned None)"
      by (rule printEntry_returns[OF rs]) (rule sub[OF mem rs])
  qed
  from printEntries_blocks[of ?rec w opts path prefix "length entries" 0 entries, OF tot] body
  obtain blocks where
    "printEntries ?rec w opts path prefix (length entries) 0 entries
       = Some (concat blocks, Returned None)"
    by blast
  with assms(1,2) show ?thesis by (simp add: Let_def)
qed

lemma printTree_leaf:
  assumes "Lstat w path = Inr info"
    and "readDir w path (showHidden opts) (reverse opts) = Inr (Inr entries)"
    and "\<And>e. e \<in> set entries \<Longrightarrow> \<not> IsDir (fst (resolveSymlink w opts path e))"
  shows "\<exists>out. printTree (Suc 0) w path opts prefix isRoot = Some (out, Returned None)"
proof (rule printTree_returns[OF assms(1,2)])
  fix e entry entryPath entryIsSymlink linkTarget pre
  assume "e \<in> set entries"
    and "resolveSymlink w opts path e = (entry, entryPath, entryIsSymlink, linkTarget)"
    and "IsDir entry"
  with assms(3)[of e] show "\<exists>out r. printTree 0 w entryPath opts pre False = Some (out, Returned r)"
    by simp
qed

text \<open>
  C3: for every directory that \<open>printTree\<close> lists, at every depth allowed, the output
  is the root line (at the root) followed by one block per child, in the order of the
  sorted listing: for every child when the call returns, and up to the child in which the
  process dies when the recursion exceeds the depth allowed. The block of a child is what
  the loop body prints for it, and its first line is the inherited prefix, then the branch
  glyph for the last child of the listing and the tee glyph for every other child, then
  the text of the entry. The call returns, with the blocks of all the children, whenever
  the loop body returns for each child.
\<close>

theorem last_child_branch_others_tee:
  assumes "Lstat w path = Inr info"
    and "readDir w path (showHidden opts) (reverse opts) = Inr (Inr entries)"
  shows "\<exists>blocks st.
           printTree (Suc fuel) w path opts prefix isRoot
             = Some ((if isRoot
                      then printNode w (rootName w path) info opts [] True True [] False
                      else []) @ concat blocks, st)
         \<and> length blocks \<le> length entries
         \<and> (\<forall>k < length blocks.
               (\<exists>s. printEntry
                       (\<lambda>entryPath newPrefix. printTree fuel w entryPath opts newPrefix False)
                       w opts path prefix (k = length entries - 1) (entries ! k)
                     = Some (blocks ! k, s))
             \<and> (\<exists>text rest. blocks ! k
                   = Stdout (prefix @ (if k = length entries - 1 then branch else tee) @ text)
                     # rest))
         \<and> (st = Returned None \<and> length blocks = length entries \<or> st = Panicked StackOverflow)
         \<and> ((\<forall>k < length entries. \<exists>out.
                printEntry
                  (\<lambda>entryPath newPrefix. printTree fuel w entryPath opts newPrefix False)
                  w opts path prefix (k = length entries - 1) (entries ! k)
                = Some (out, Returned None))
              \<longrightarrow> st = Returned None)"
proof -
  let ?rec = "\<lambda>entryPath newPrefix. printTree fuel w entryPath opts newPrefix False"
  let ?root = "if isRoot then printNode w (rootName w path) info opts [] True True [] False
               else []"
  let ?n = "length entries"
  have tot: "\<And>p pre. \<exists>r. ?rec p pre = Some r" by (rule printTree_total)
  have eq: "(int (0 + k) = int ?n - 1) = (k = ?n - 1)" if "k < ?n" for k
    using that by auto
  from printEntries_blocks[of ?rec w opts path prefix ?n 0 entries, OF tot]
  obtain blocks st where
    l: "printEntries ?rec w opts path prefix ?n 0 entries = Some (concat blocks, st)"
    and len: "length blocks \<le> ?n"
    and bl: "\<forall>k < length blocks. \<exists>s.
               printEntry ?rec w opts path prefix (int (0 + k) = int ?n - 1) (entries ! k)
                 = Some (blocks ! k, s)"
    and fin: "st = Returned None \<and> length blocks = ?n \<or> (\<exists>p. st = Panicked p)"
    and compl: "(\<forall>k < ?n. \<exists>out.
                printEntry ?rec w opts path prefix (int (0 + k) = int ?n - 1) (entries ! k)
                  = Some (out, Returned None))
              \<longrightarrow> st = Returned None"
    by blast
  have r: "printTree (Suc fuel) w path opts prefix isRoot = Some (?root @ concat blocks, st)"
    using assms l by (simp add: Let_def)
  have a: "\<forall>k < length blocks.
               (\<exists>s. printEntry ?rec w opts path prefix (k = ?n - 1) (entries ! k)
                     = Some (blocks ! k, s))
             \<and> (\<exists>text rest. blocks ! k
                   = Stdout (prefix @ (if k = ?n - 1 then branch else tee) @ text) # rest)"
  proof (intro allI impI)
    fix k assume k: "k < length blocks"
    with len have kn: "k < ?n" by simp
    from bl k obtain s where
      "printEntry ?rec w opts path prefix (int (0 + k) = int ?n - 1) (entries ! k)
         = Some (blocks ! k, s)" by blast
    then have pe: "printEntry ?rec w opts path prefix (k = ?n - 1) (entries ! k)
         = Some (blocks ! k, s)" unfolding eq[OF kn] .
    from printEntry_first_line[OF pe] pe
    show "(\<exists>s. printEntry ?rec w opts path prefix (k = ?n - 1) (entries ! k)
                     = Some (blocks ! k, s))
             \<and> (\<exists>text rest. blocks ! k
                   = Stdout (prefix @ (if k = ?n - 1 then branch else tee) @ text) # rest)"
      by (auto simp: glyph_def)
  qed
  have b: "st = Returned None \<and> length blocks = ?n \<or> st = Panicked StackOverflow"
  proof (cases st)
    case (Returned x)
    with fin show ?thesis by auto
  next
    case (Panicked p)
    with r have "printTree (Suc fuel) w path opts prefix isRoot
        = Some (?root @ concat blocks, Panicked p)" by simp
    from printTree_panic[OF this] Panicked show ?thesis by simp
  qed
  have c: "(\<forall>k < ?n. \<exists>out.
                printEntry ?rec w opts path prefix (k = ?n - 1) (entries ! k)
                  = Some (out, Returned None))
              \<longrightarrow> st = Returned None"
  proof
    assume h: "\<forall>k < ?n. \<exists>out.
                printEntry ?rec w opts path prefix (k = ?n - 1) (entries ! k)
                  = Some (out, Returned None)"
    have "\<forall>k < ?n. \<exists>out.
                printEntry ?rec w opts path prefix (int (0 + k) = int ?n - 1) (entries ! k)
                  = Some (out, Returned None)"
    proof (intro allI impI)
      fix k assume kn: "k < ?n"
      with h have "\<exists>out. printEntry ?rec w opts path prefix (k = ?n - 1) (entries ! k)
                  = Some (out, Returned None)" by blast
      then show "\<exists>out. printEntry ?rec w opts path prefix (int (0 + k) = int ?n - 1)
          (entries ! k) = Some (out, Returned None)" unfolding eq[OF kn] .
    qed
    with compl show "st = Returned None" by blast
  qed
  from r len a b c show ?thesis by blast
qed

theorem last_child_branch_others_tee_witness:
  "Lstat exampleWorld ''r'' = Inr (mkInfo ''r'' dirMode)
   \<and> readDir exampleWorld ''r'' (showHidden noOptions) (reverse noOptions)
       = Inr (Inr [mkInfo ''A'' regularMode, mkInfo ''b.txt'' regularMode,
                   mkInfo ''link'' linkMode, mkInfo ''locked'' dirMode, mkInfo ''sub'' dirMode])
   \<and> printTree (Suc 1) exampleWorld ''r'' noOptions [] True
     = Some ([Stdout ''r'',
              Stdout (tee @ ''A''),
              Stdout (tee @ ''b.txt''),
              Stdout (tee @ ''link -> sub''),
              Stdout (tee @ ''locked''),
              Warn ''Error reading directory r/locked: permission denied'',
              Stdout (branch @ ''sub''),
              Stdout (space @ branch @ ''c'')], Returned None)
   \<and> (\<exists>blocks. length blocks = 5
         \<and> (\<exists>text rest. blocks ! 3 = Stdout ([] @ tee @ text) # rest)
         \<and> (\<exists>text rest. blocks ! 4 = Stdout ([] @ branch @ text) # rest))
   \<and> Lstat exampleWorld ''d'' = Inr (mkInfo ''d'' dirMode)
   \<and> readDir exampleWorld ''d'' (showHidden (noOptions\<lparr>derefLinks := True\<rparr>))
         (reverse (noOptions\<lparr>derefLinks := True\<rparr>))
       = Inr (Inr [mkInfo ''self'' linkMode])
   \<and> printTree (Suc 2) exampleWorld ''d'' (noOptions\<lparr>derefLinks := True\<rparr>) [] True
     = Some ([Stdout ''d'',
              Stdout (branch @ ''d''),
              Stdout (space @ branch @ ''d''),
              Stdout (space @ space @ branch @ ''d'')], Panicked StackOverflow)
   \<and> (\<exists>blocks. length blocks = 1
         \<and> (\<exists>text rest. blocks ! 0 = Stdout ([] @ branch @ text) # rest))"
proof -
  let ?es = "[mkInfo ''A'' regularMode, mkInfo ''b.txt'' regularMode,
              mkInfo ''link'' linkMode, mkInfo ''locked'' dirMode, mkInfo ''sub'' dirMode]"
  let ?L = "noOptions\<lparr>derefLinks := True\<rparr>"
  have h1: "printTree (Suc 1) exampleWorld ''r'' noOptions [] True
     = Some ([Stdout ''r'',
              Stdout (tee @ ''A''),
              Stdout (tee @ ''b.txt''),
              Stdout (tee @ ''link -> sub''),
              Stdout (tee @ ''locked''),
              Warn ''Error reading directory r/locked: permission denied'',
              Stdout (branch @ ''sub''),
              Stdout (space @ branch @ ''c'')], Returned None)"
    by code_simp
  have h2: "Lstat exampleWorld ''r'' = Inr (mkInfo ''r'' dirMode)"
    by code_simp
  have h3: "readDir exampleWorld ''r'' (showHidden noOptions) (reverse noOptions) = Inr (Inr ?es)"
    by code_simp
  from last_child_branch_others_tee[OF h2 h3, where fuel = 1 and prefix = "[]" and isRoot = True] obtain blocks st where
    e: "printTree (Suc 1) exampleWorld ''r'' noOptions [] True
          = Some ((if True then printNode exampleWorld (rootName exampleWorld ''r'')
                      (mkInfo ''r'' dirMode) noOptions [] True True [] False else [])
                  @ concat blocks, st)"
    and c: "\<forall>k < length blocks.
          (\<exists>s. printEntry (\<lambda>entryPath newPrefix. printTree 1 exampleWorld entryPath noOptions newPrefix False)
              exampleWorld noOptions ''r'' [] (k = length ?es - 1) (?es ! k)
            = Some (blocks ! k, s))
          \<and> (\<exists>text rest. blocks ! k
                = Stdout ([] @ (if k = length ?es - 1 then branch else tee) @ text) # rest)"
    and f: "st = Returned None \<and> length blocks = length ?es \<or> st = Panicked StackOverflow"
    by blast
  from e h1 have "st = Returned None" by simp
  with f have b': "length blocks = 5" by simp
  from c b' have c3: "\<exists>text rest. blocks ! 3 = Stdout ([] @ tee @ text) # rest"
    by (auto dest!: spec[of _ 3])
  from c b' have c4: "\<exists>text rest. blocks ! 4 = Stdout ([] @ branch @ text) # rest"
    by (auto dest!: spec[of _ 4])
  have g1: "printTree (Suc 2) exampleWorld ''d'' ?L [] True
     = Some ([Stdout ''d'',
              Stdout (branch @ ''d''),
              Stdout (space @ branch @ ''d''),
              Stdout (space @ space @ branch @ ''d'')], Panicked StackOverflow)"
    by code_simp
  have g2: "Lstat exampleWorld ''d'' = Inr (mkInfo ''d'' dirMode)"
    by code_simp
  have g3: "readDir exampleWorld ''d'' (showHidden ?L) (reverse ?L)
      = Inr (Inr [mkInfo ''self'' linkMode])"
    by code_simp
  have g4: "(if True then printNode exampleWorld (rootName exampleWorld ''d'')
                      (mkInfo ''d'' dirMode) ?L [] True True [] False else [])
      = [Stdout ''d'']"
    by code_simp
  from last_child_branch_others_tee[OF g2 g3, where fuel = 2 and prefix = "[]" and isRoot = True] obtain dblocks dst where
    de: "printTree (Suc 2) exampleWorld ''d'' ?L [] True
          = Some ((if True then printNode exampleWorld (rootName exampleWorld ''d'')
                      (mkInfo ''d'' dirMode) ?L [] True True [] False else [])
                  @ concat dblocks, dst)"
    and dl: "length dblocks \<le> length [mkInfo ''self'' linkMode]"
    and dc: "\<forall>k < length dblocks.
          (\<exists>s. printEntry (\<lambda>entryPath newPrefix. printTree 2 exampleWorld entryPath ?L newPrefix False)
              exampleWorld ?L ''d'' [] (k = length [mkInfo ''self'' linkMode] - 1)
              ([mkInfo ''self'' linkMode] ! k)
            = Some (dblocks ! k, s))
          \<and> (\<exists>text rest. dblocks ! k
                = Stdout ([] @ (if k = length [mkInfo ''self'' linkMode] - 1 then branch else tee)
                            @ text) # rest)"
    by blast
  from de g1 have "concat dblocks \<noteq> []" unfolding g4 by auto
  then have "dblocks \<noteq> []" by auto
  with dl have d1: "length dblocks = 1" by (cases dblocks) auto
  from dc d1 have d0: "\<exists>text rest. dblocks ! 0 = Stdout ([] @ branch @ text) # rest"
    by (auto dest!: spec[of _ 0])
  from h1 h2 h3 b' c3 c4 g1 g2 g3 d1 d0 show ?thesis by blast
qed

text \<open>
  C4: for a symlink entry with neither dereference-links nor no-symlink set, whose link
  target is read as \<open>target\<close>, the loop body prints one line, the name followed by
  \<open>->\<close> and the target as read, and makes no recursive call: the result does not depend
  on \<open>recurse\<close> nor on what the target is. The hypotheses say what the entry of a link
  in a directory listing is: it has the type bit of a symlink and not that of a directory,
  and its target can be read and is not empty.
\<close>

theorem symlink_shown_not_followed:
  assumes "Mode e AND ModeSymlink \<noteq> 0" and "\<not> IsDir e"
    and "\<not> derefLinks opts" and "\<not> noSymlink opts"
    and "Readlink w (Join w path (Name e)) = Inr target" and "target \<noteq> []"
  shows "printEntry recurse w opts path prefix isLast e
     = Some ([Stdout (prefix @ (if isLast then branch else tee)
                @ Render w (if HasPrefix (Name e) ''.'' then hiddenStyle else linkStyle)
                    (Name e @ '' -> '' @ target)
                @ longColumns w opts e)], Returned None)"
  using assms
  by (simp add: printEntry_def resolveSymlink_def printNode_line lineText_def displayName_def
      nameStyle_def Let_def)

theorem symlink_shown_not_followed_witness:
  "Mode (mkInfo ''link'' linkMode) AND ModeSymlink \<noteq> 0
   \<and> \<not> IsDir (mkInfo ''link'' linkMode)
   \<and> Readlink exampleWorld (Join exampleWorld ''r'' (Name (mkInfo ''link'' linkMode))) = Inr ''sub''
   \<and> Stat exampleWorld ''r/sub'' = Inr (mkInfo ''sub'' dirMode) \<and> IsDir (mkInfo ''sub'' dirMode)
   \<and> printEntry (\<lambda>entryPath newPrefix. None) exampleWorld noOptions ''r'' [] False
         (mkInfo ''link'' linkMode)
       = Some ([Stdout (tee @ ''link -> sub'')], Returned None)"
proof -
  have h1: "Mode (mkInfo ''link'' linkMode) AND ModeSymlink \<noteq> 0" by code_simp
  have h2: "\<not> IsDir (mkInfo ''link'' linkMode)" by code_simp
  have h3: "\<not> derefLinks noOptions" by code_simp
  have h4: "\<not> noSymlink noOptions" by code_simp
  have h5: "Readlink exampleWorld (Join exampleWorld ''r'' (Name (mkInfo ''link'' linkMode)))
      = Inr ''sub''" by code_simp
  have h6: "''sub'' \<noteq> []" by simp
  have t: "Stat exampleWorld ''r/sub'' = Inr (mkInfo ''sub'' dirMode) \<and> IsDir (mkInfo ''sub'' dirMode)"
    by code_simp
  have r: "[] @ (if False then branch else tee)
                @ Render exampleWorld
                    (if HasPrefix (Name (mkInfo ''link'' linkMode)) ''.'' then hiddenStyle
                     else linkStyle)
                    (Name (mkInfo ''link'' linkMode) @ '' -> '' @ ''sub'')
                @ longColumns exampleWorld noOptions (mkInfo ''link'' linkMode)
       = tee @ ''link -> sub''"
    by code_simp
  from symlink_shown_not_followed[OF h1 h2 h3 h4 h5 h6, of "\<lambda>entryPath newPrefix. None" "[]" False]
  have "printEntry (\<lambda>entryPath newPrefix. None) exampleWorld noOptions ''r'' [] False
         (mkInfo ''link'' linkMode) = Some ([Stdout (tee @ ''link -> sub'')], Returned None)"
    unfolding r .
  with h1 h2 h5 t show ?thesis by blast
qed

text \<open>
  C5: for a symlink entry with dereference-links set. When \<open>EvalSymlinks\<close> and
  \<open>Stat\<close> succeed, the loop body goes on with the metadata and the path of the target,
  as for an entry that is no symlink: the line shows the target's name and style without a
  suffix, and when the target is a directory the recursive call is made on the path of the
  target, with the prefix of the link's position. When one of the two fails, the entry
  stays the symlink that was read: its name without a suffix, and no recursive call (an
  entry read from a directory that is a symlink is not a directory).
\<close>

theorem dereferenced_symlink:
  assumes "Mode e AND ModeSymlink \<noteq> 0" and "derefLinks opts"
  shows "(EvalSymlinks w (Join w path (Name e)) = Inr targetPath
            \<and> Stat w targetPath = Inr targetInfo \<longrightarrow>
          printEntry recurse w opts path prefix isLast e
            = (let line = Stdout (prefix @ (if isLast then branch else tee)
                            @ Render w (nameStyle (IsDir targetInfo)
                                         (HasPrefix (Name targetInfo) ''.'') False)
                                (Name targetInfo)
                            @ longColumns w opts targetInfo)
               in if IsDir targetInfo then
                    (case recurse targetPath (prefix @ (if isLast then space else pipe)) of
                       None \<Rightarrow> None
                     | Some (sub, Panicked p) \<Rightarrow> Some (line # sub, Panicked p)
                     | Some (sub, Returned r) \<Rightarrow>
                         Some (line # sub @ dirWarning targetPath r, Returned None))
                  else Some ([line], Returned None)))
       \<and> ((EvalSymlinks w (Join w path (Name e)) = Inl err
             \<or> EvalSymlinks w (Join w path (Name e)) = Inr targetPath
                \<and> Stat w targetPath = Inl err)
            \<and> \<not> IsDir e \<longrightarrow>
          printEntry recurse w opts path prefix isLast e
            = Some ([Stdout (prefix @ (if isLast then branch else tee)
                       @ Render w (if HasPrefix (Name e) ''.'' then hiddenStyle else linkStyle)
                           (Name e)
                       @ longColumns w opts e)], Returned None))"
  using assms
  by (auto simp: printEntry_def resolveSymlink_def printNode_line lineText_def displayName_def
      nameStyle_def Let_def split: option.splits prod.splits status.splits)

theorem dereferenced_symlink_witness:
  "Mode (mkInfo ''link'' linkMode) AND ModeSymlink \<noteq> 0
   \<and> derefLinks (noOptions\<lparr>derefLinks := True\<rparr>)
   \<and> EvalSymlinks exampleWorld (Join exampleWorld ''r'' (Name (mkInfo ''link'' linkMode)))
       = Inr ''r/sub''
   \<and> Stat exampleWorld ''r/sub'' = Inr (mkInfo ''sub'' dirMode)
   \<and> printEntry (\<lambda>entryPath newPrefix. printTree 1 exampleWorld entryPath
                      (noOptions\<lparr>derefLinks := True\<rparr>) newPrefix False)
         exampleWorld (noOptions\<lparr>derefLinks := True\<rparr>) ''r'' [] False (mkInfo ''link'' linkMode)
       = Some ([Stdout (tee @ ''sub''), Stdout (pipe @ branch @ ''c'')], Returned None)
   \<and> EvalSymlinks exampleWorld (Join exampleWorld ''x'' (Name (mkInfo ''link'' linkMode)))
       = Inl ''no such file or directory''
   \<and> \<not> IsDir (mkInfo ''link'' linkMode)
   \<and> printEntry (\<lambda>entryPath newPrefix. None) exampleWorld (noOptions\<lparr>derefLinks := True\<rparr>)
         ''x'' [] True (mkInfo ''link'' linkMode)
       = Some ([Stdout (branch @ ''link'')], Returned None)"
proof -
  let ?o = "noOptions\<lparr>derefLinks := True\<rparr>"
  let ?l = "mkInfo ''link'' linkMode"
  let ?rec = "\<lambda>entryPath newPrefix. printTree 1 exampleWorld entryPath ?o newPrefix False"
  have h1: "Mode ?l AND ModeSymlink \<noteq> 0" by code_simp
  have h2: "derefLinks ?o" by code_simp
  have h3: "EvalSymlinks exampleWorld (Join exampleWorld ''r'' (Name ?l)) = Inr ''r/sub''"
    by code_simp
  have h4: "Stat exampleWorld ''r/sub'' = Inr (mkInfo ''sub'' dirMode)" by code_simp
  have h5: "EvalSymlinks exampleWorld (Join exampleWorld ''x'' (Name ?l))
      = Inl ''no such file or directory''" by code_simp
  have h6: "\<not> IsDir ?l" by code_simp
  have r1: "(let line = Stdout ([] @ (if False then branch else tee)
                            @ Render exampleWorld (nameStyle (IsDir (mkInfo ''sub'' dirMode))
                                         (HasPrefix (Name (mkInfo ''sub'' dirMode)) ''.'') False)
                                (Name (mkInfo ''sub'' dirMode))
                            @ longColumns exampleWorld ?o (mkInfo ''sub'' dirMode))
               in if IsDir (mkInfo ''sub'' dirMode) then
                    (case ?rec ''r/sub'' ([] @ (if False then space else pipe)) of
                       None \<Rightarrow> None
                     | Some (sub, Panicked p) \<Rightarrow> Some (line # sub, Panicked p)
                     | Some (sub, Returned r) \<Rightarrow>
                         Some (line # sub @ dirWarning ''r/sub'' r, Returned None))
                  else Some ([line], Returned None))
       = Some ([Stdout (tee @ ''sub''), Stdout (pipe @ branch @ ''c'')], Returned None)"
    by code_simp
  have r2: "[] @ (if True then branch else tee)
                       @ Render exampleWorld (if HasPrefix (Name ?l) ''.'' then hiddenStyle
                                              else linkStyle) (Name ?l)
                       @ longColumns exampleWorld ?o ?l
       = branch @ ''link''"
    by code_simp
  from dereferenced_symlink[OF h1 h2, where w = exampleWorld and path = "''r''"
      and targetPath = "''r/sub''" and targetInfo = "mkInfo ''sub'' dirMode"
      and recurse = ?rec and prefix = "[]" and isLast = False] h3 h4
  have a: "printEntry ?rec exampleWorld ?o ''r'' [] False ?l
       = Some ([Stdout (tee @ ''sub''), Stdout (pipe @ branch @ ''c'')], Returned None)"
    unfolding r1 by blast
  from dereferenced_symlink[OF h1 h2, where w = exampleWorld and path = "''x''"
      and err = "''no such file or directory''"
      and recurse = "\<lambda>entryPath newPrefix. None" and prefix = "[]" and isLast = True] h5 h6
  have b: "printEntry (\<lambda>entryPath newPrefix. None) exampleWorld ?o ''x'' [] True ?l
       = Some ([Stdout (branch @ ''link'')], Returned None)"
    unfolding r2 by blast
  from h1 h2 h3 h4 h5 h6 a b show ?thesis by blast
qed

section \<open>Errors during the traversal\<close>
lemma listRoots_total:
  "\<exists>r. listRoots fuel w opts n i paths = Some r"
proof (induction paths arbitrary: i)
  case Nil
  show ?case by simp
next
  case (Cons root rest)
  from printTree_total[of fuel w root opts "[]" True] obtain o1 s1 where
    t: "printTree fuel w root opts [] True = Some (o1, s1)" by auto
  from Cons.IH[of "i + 1"] obtain r2 where
    l: "listRoots fuel w opts n (i + 1) rest = Some r2" by blast
  from t l show ?case
    by (cases s1; cases r2) simp_all
qed

lemma listRoots_panic:
  "listRoots fuel w opts n i paths = Some (out, Panicked q) \<Longrightarrow> q = StackOverflow"
proof (induction paths arbitrary: i out)
  case Nil
  then show ?case by simp
next
  case (Cons root rest)
  from printTree_total[of fuel w root opts "[]" True] obtain o1 s1 where
    t: "printTree fuel w root opts [] True = Some (o1, s1)" by auto
  show ?case
  proof (cases s1)
    case (Panicked p)
    with t printTree_panic[of fuel w root opts "[]" True o1 p] have "p = StackOverflow" by simp
    with Cons.prems t Panicked show ?thesis by simp
  next
    case (Returned r)
    with Cons.prems t obtain o2 where
      "listRoots fuel w opts n (i + 1) rest = Some (o2, Panicked q)"
      by (auto split: option.splits prod.splits)
    then show ?thesis by (rule Cons.IH)
  qed
qed

lemma printTree_fails:
  assumes "Lstat w path = Inl err
           \<or> (\<exists>info. Lstat w path = Inr info)
              \<and> readDir w path (showHidden opts) (reverse opts) = Inr (Inl err)"
  shows "printTree (Suc fuel) w path opts prefix isRoot = Some ([], Returned (Some err))"
  using assms by auto

text \<open>
  C8: a directory that cannot be listed, below a root or as a root, does not stop the run.
  In the loop of \<open>printTree\<close>: when the recursive call for an entry fails (\<open>Lstat\<close> or
  \<open>readDir\<close> returns an error), the entry's line is printed, the warning is logged,
  nothing of the subtree is printed, and the loop goes on with the remaining siblings. In
  the loop of \<open>main\<close>: when a root fails, its header (if any) and the warning are
  written and the loop goes on with the remaining roots. Whatever fails during the
  traversal, a run whose arguments parse ends with the exit status of success, unless the
  recursion exceeds the depth allowed.
\<close>

theorem traversal_errors_not_fatal:
  "(resolveSymlink w opts path e = (entry, entryPath, entryIsSymlink, linkTarget)
      \<and> IsDir entry
      \<and> (Lstat w entryPath = Inl err
           \<or> (\<exists>info. Lstat w entryPath = Inr info)
              \<and> readDir w entryPath (showHidden opts) (reverse opts) = Inr (Inl err))
    \<longrightarrow> printEntries (\<lambda>entryPath newPrefix. printTree (Suc fuel) w entryPath opts newPrefix False)
            w opts path prefix n i (e # rest)
        = (case printEntries
                  (\<lambda>entryPath newPrefix. printTree (Suc fuel) w entryPath opts newPrefix False)
                  w opts path prefix n (i + 1) rest of
             None \<Rightarrow> None
           | Some (out, st) \<Rightarrow>
               Some (Stdout (prefix @ (if int i = int n - 1 then branch else tee)
                        @ lineText w (Name entry) entry opts linkTarget entryIsSymlink)
                     # Warn (''Error reading directory '' @ entryPath @ '': '' @ err)
                     # out, st)))
   \<and> (Lstat w root = Inl err
        \<or> (\<exists>info. Lstat w root = Inr info)
           \<and> readDir w root (showHidden opts) (reverse opts) = Inr (Inl err)
    \<longrightarrow> listRoots (Suc fuel) w opts m j (root # roots)
        = (case listRoots (Suc fuel) w opts m (j + 1) roots of
             None \<Rightarrow> None
           | Some (out, st) \<Rightarrow>
               Some (rootHeader m j root
                     @ Warn (''Error listing '' @ root @ '': '' @ err) # out, st)))
   \<and> (parseArgs args noOptions [] = Parsed opts' paths
    \<longrightarrow> (\<exists>out'. main fuel' w args = Some (out', ExitOk)
                \<or> main fuel' w args = Some (out', ExitPanic StackOverflow)))"
proof (intro conjI impI)
  assume a: "resolveSymlink w opts path e = (entry, entryPath, entryIsSymlink, linkTarget)
      \<and> IsDir entry
      \<and> (Lstat w entryPath = Inl err
           \<or> (\<exists>info. Lstat w entryPath = Inr info)
              \<and> readDir w entryPath (showHidden opts) (reverse opts) = Inr (Inl err))"
  let ?rec = "\<lambda>entryPath newPrefix. printTree (Suc fuel) w entryPath opts newPrefix False"
  from a have f: "\<And>pre. ?rec entryPath pre = Some ([], Returned (Some err))"
    using printTree_fails[of w entryPath err opts fuel _ False] by blast
  have pe: "printEntry ?rec w opts path prefix (int i = int n - 1) e
      = Some ([Stdout (prefix @ (if int i = int n - 1 then branch else tee)
                 @ lineText w (Name entry) entry opts linkTarget entryIsSymlink),
               Warn (''Error reading directory '' @ entryPath @ '': '' @ err)], Returned None)"
    using a unfolding printEntry_def
    by (simp add: f printNode_line dirWarning_def del: printTree.simps)
  show "printEntries ?rec w opts path prefix n i (e # rest)
        = (case printEntries ?rec w opts path prefix n (i + 1) rest of
             None \<Rightarrow> None
           | Some (out, st) \<Rightarrow>
               Some (Stdout (prefix @ (if int i = int n - 1 then branch else tee)
                        @ lineText w (Name entry) entry opts linkTarget entryIsSymlink)
                     # Warn (''Error reading directory '' @ entryPath @ '': '' @ err)
                     # out, st))"
    unfolding printEntries.simps pe
    by (simp split: option.splits prod.splits del: printTree.simps)
next
  assume a: "Lstat w root = Inl err
        \<or> (\<exists>info. Lstat w root = Inr info)
           \<and> readDir w root (showHidden opts) (reverse opts) = Inr (Inl err)"
  have f: "printTree (Suc fuel) w root opts [] True = Some ([], Returned (Some err))"
    using a by (rule printTree_fails)
  show "listRoots (Suc fuel) w opts m j (root # roots)
        = (case listRoots (Suc fuel) w opts m (j + 1) roots of
             None \<Rightarrow> None
           | Some (out, st) \<Rightarrow>
               Some (rootHeader m j root
                     @ Warn (''Error listing '' @ root @ '': '' @ err) # out, st))"
    unfolding listRoots.simps f
    by (simp add: rootWarning_def split: option.splits prod.splits del: printTree.simps)
next
  assume a: "parseArgs args noOptions [] = Parsed opts' paths"
  let ?paths = "if length paths = 0 then paths @ [''.''] else paths"
  from listRoots_total[of fuel' w opts' "length ?paths" 0 ?paths] obtain lo st where
    l: "listRoots fuel' w opts' (length ?paths) 0 ?paths = Some (lo, st)"
    by auto
  show "\<exists>out'. main fuel' w args = Some (out', ExitOk)
                \<or> main fuel' w args = Some (out', ExitPanic StackOverflow)"
  proof (cases st)
    case (Returned r)
    with a l have "main fuel' w args = Some (lo, ExitOk)"
      by (simp add: main_def Let_def)
    then show ?thesis by blast
  next
    case (Panicked p)
    with l listRoots_panic[of fuel' w opts' "length ?paths" 0 ?paths lo p]
    have "p = StackOverflow" by simp
    with a l Panicked have "main fuel' w args = Some (lo, ExitPanic StackOverflow)"
      by (simp add: main_def Let_def)
    then show ?thesis by blast
  qed
qed

theorem traversal_errors_not_fatal_witness:
  "resolveSymlink exampleWorld noOptions ''r'' (mkInfo ''locked'' dirMode)
     = (mkInfo ''locked'' dirMode, ''r/locked'', False, [])
   \<and> IsDir (mkInfo ''locked'' dirMode)
   \<and> Lstat exampleWorld ''r/locked'' = Inr (mkInfo ''locked'' dirMode)
   \<and> readDir exampleWorld ''r/locked'' (showHidden noOptions) (reverse noOptions)
       = Inr (Inl ''permission denied'')
   \<and> printEntries (\<lambda>entryPath newPrefix. printTree (Suc 0) exampleWorld entryPath noOptions
                        newPrefix False)
         exampleWorld noOptions ''r'' [] 5 3 [mkInfo ''locked'' dirMode, mkInfo ''sub'' dirMode]
       = Some ([Stdout (tee @ ''locked''),
                Warn ''Error reading directory r/locked: permission denied'',
                Stdout (branch @ ''sub''),
                Stdout (space @ branch @ ''c'')], Returned None)
   \<and> Lstat exampleWorld ''zz'' = Inl ''no such file or directory''
   \<and> listRoots (Suc 0) exampleWorld noOptions 2 0 [''zz'', ''r/sub'']
       = Some ([Stdout ''zz:'',
                Warn ''Error listing zz: no such file or directory'',
                Stdout [],
                Stdout ''r/sub:'',
                Stdout ''sub'',
                Stdout (branch @ ''c'')], Returned None)
   \<and> parseArgs [''zz'', ''r/sub''] noOptions [] = Parsed noOptions [''zz'', ''r/sub'']
   \<and> main 1 exampleWorld [''zz'', ''r/sub'']
       = Some ([Stdout ''zz:'',
                Warn ''Error listing zz: no such file or directory'',
                Stdout [],
                Stdout ''r/sub:'',
                Stdout ''sub'',
                Stdout (branch @ ''c'')], ExitOk)
   \<and> (\<exists>out. main 1 exampleWorld [''zz'', ''r/sub''] = Some (out, ExitOk)
            \<or> main 1 exampleWorld [''zz'', ''r/sub''] = Some (out, ExitPanic StackOverflow))"
proof -
  let ?rec = "\<lambda>entryPath newPrefix. printTree (Suc 0) exampleWorld entryPath noOptions
                newPrefix False"
  let ?locked = "mkInfo ''locked'' dirMode"
  have h1: "resolveSymlink exampleWorld noOptions ''r'' ?locked = (?locked, ''r/locked'', False, [])"
    by code_simp
  have h2: "IsDir ?locked" by code_simp
  have h3: "Lstat exampleWorld ''r/locked'' = Inr ?locked" by code_simp
  have h4: "readDir exampleWorld ''r/locked'' (showHidden noOptions) (reverse noOptions)
       = Inr (Inl ''permission denied'')" by code_simp
  have h5: "Lstat exampleWorld ''zz'' = Inl ''no such file or directory''" by code_simp
  have r1: "(case printEntries ?rec exampleWorld noOptions ''r'' [] 5 (3 + 1)
                   [mkInfo ''sub'' dirMode] of
             None \<Rightarrow> None
           | Some (out, st) \<Rightarrow>
               Some (Stdout ([] @ (if int 3 = int 5 - 1 then branch else tee)
                        @ lineText exampleWorld (Name ?locked) ?locked noOptions [] False)
                     # Warn (''Error reading directory '' @ ''r/locked'' @ '': ''
                             @ ''permission denied'')
                     # out, st))
      = Some ([Stdout (tee @ ''locked''),
                Warn ''Error reading directory r/locked: permission denied'',
                Stdout (branch @ ''sub''),
                Stdout (space @ branch @ ''c'')], Returned None)"
    by code_simp
  have r2: "(case listRoots (Suc 0) exampleWorld noOptions 2 (0 + 1) [''r/sub''] of
             None \<Rightarrow> None
           | Some (out, st) \<Rightarrow>
               Some (rootHeader 2 0 ''zz''
                     @ Warn (''Error listing '' @ ''zz'' @ '': '' @ ''no such file or directory'')
                       # out, st))
      = Some ([Stdout ''zz:'',
                Warn ''Error listing zz: no such file or directory'',
                Stdout [],
                Stdout ''r/sub:'',
                Stdout ''sub'',
                Stdout (branch @ ''c'')], Returned None)"
    by code_simp
  note t = traversal_errors_not_fatal[where w = exampleWorld and opts = noOptions
      and path = "''r''" and e = ?locked and entry = ?locked and entryPath = "''r/locked''"
      and entryIsSymlink = False and linkTarget = "[]" and err = "''permission denied''"
      and fuel = 0 and prefix = "[]" and n = 5 and i = 3 and rest = "[mkInfo ''sub'' dirMode]"]
  from t h1 h2 h3 h4
  have a: "printEntries ?rec exampleWorld noOptions ''r'' [] 5 3 [?locked, mkInfo ''sub'' dirMode]
       = Some ([Stdout (tee @ ''locked''),
                Warn ''Error reading directory r/locked: permission denied'',
                Stdout (branch @ ''sub''),
                Stdout (space @ branch @ ''c'')], Returned None)"
    unfolding r1 by blast
  note u = traversal_errors_not_fatal[where w = exampleWorld and opts = noOptions
      and root = "''zz''" and err = "''no such file or directory''" and fuel = 0
      and m = 2 and j = 0 and roots = "[''r/sub'']"]
  from u h5
  have b: "listRoots (Suc 0) exampleWorld noOptions 2 0 [''zz'', ''r/sub'']
       = Some ([Stdout ''zz:'',
                Warn ''Error listing zz: no such file or directory'',
                Stdout [],
                Stdout ''r/sub:'',
                Stdout ''sub'',
                Stdout (branch @ ''c'')], Returned None)"
    unfolding r2 by blast
  have h6: "parseArgs [''zz'', ''r/sub''] noOptions [] = Parsed noOptions [''zz'', ''r/sub'']"
    by code_simp
  note v = traversal_errors_not_fatal[where args = "[''zz'', ''r/sub'']" and opts' = noOptions
      and paths = "[''zz'', ''r/sub'']" and fuel' = 1 and w = exampleWorld]
  note v3 = v[THEN conjunct2, THEN conjunct2, rule_format]
  have h7: "main 1 exampleWorld [''zz'', ''r/sub'']
       = Some ([Stdout ''zz:'',
                Warn ''Error listing zz: no such file or directory'',
                Stdout [],
                Stdout ''r/sub:'',
                Stdout ''sub'',
                Stdout (branch @ ''c'')], ExitOk)"
    by code_simp
  note c = v3[OF h6]
  from h1 h2 h3 h4 h5 a b h6 h7 c show ?thesis by blast
qed

section \<open>Several roots\<close>




end
